theory Spec2Isabelle
  imports
    Main
    "HOL-Library.Char_ord"
    "HOL-Library.List_Lexorder"
    "HOL-Library.Multiset"
    "HOL-Library.Product_Lexorder"
begin

section \<open>The Python library functions that dnssec.py calls\<close>

text \<open>
  Strings are \<^typ>\<open>string\<close>, one \<^typ>\<open>char\<close> per character; the model covers
  ASCII text. Python compares strings lexicographically by code point, which is the order
  of \<open>List_Lexorder\<close> over \<open>Char_ord\<close>.

  An exception is a value of \<open>error\<close>, one constructor per class and origin:
  \<^item> \<open>IndexError\<close>: a list index out of range (\<open>words[2]\<close>, \<open>ff[1]\<close>, ...);
  \<^item> \<open>ValueError_int s\<close>: the \<open>ValueError\<close> of \<open>int(s)\<close>;
  \<^item> \<open>ValueError_strptime s\<close>: the \<open>ValueError\<close> of \<open>datetime.strptime(s, ...)\<close>;
  \<^item> \<open>ValueError m\<close>: a \<open>ValueError\<close> raised by dnssec.py itself, with its message;
  \<^item> \<open>OSError m\<close>: the \<open>OSError\<close> raised by \<open>DnsSec._call\<close>, with its message;
  \<^item> \<open>AttributeError\<close>: a method called on \<open>None\<close>.
\<close>

datatype error =
    IndexError
  | ValueError_int string
  | ValueError_strptime string
  | ValueError string
  | OSError string
  | AttributeError

subsection \<open>Characters\<close>

definition isspace :: "char \<Rightarrow> bool" where
  \<comment> \<open>the whitespace of \<open>str.split()\<close>: TAB, LF, VT, FF, CR, FS, GS, RS, US and the blank\<close>
  "isspace c =
     (let n = (of_char c :: nat) in (9 \<le> n \<and> n \<le> 13) \<or> (28 \<le> n \<and> n \<le> 32))"

definition isspace_c :: "char \<Rightarrow> bool" where
  \<comment> \<open>the whitespace that \<open>int()\<close> strips from an ASCII string\<close>
  "isspace_c c = (let n = (of_char c :: nat) in (9 \<le> n \<and> n \<le> 13) \<or> n = 32)"

definition isdigit :: "char \<Rightarrow> bool" where
  "isdigit c = (c \<in> set ''0123456789'')"

definition digit_val :: "char \<Rightarrow> nat" where
  \<comment> \<open>the value of a decimal digit: its place among the ten digits\<close>
  "digit_val c = length (takeWhile (\<lambda>d. d \<noteq> c) ''012345678'')"

definition digit_chr :: "nat \<Rightarrow> char" where
  \<comment> \<open>the digit of a value below ten\<close>
  "digit_chr d = ''0123456789'' ! (d mod 10)"

subsection \<open>Splitting and searching\<close>

fun split_acc :: "string \<Rightarrow> string \<Rightarrow> string list" where
  "split_acc cur [] = (if cur = [] then [] else [cur])"
| "split_acc cur (c # cs) =
     (if isspace c then (if cur = [] then split_acc [] cs else cur # split_acc [] cs)
      else split_acc (cur @ [c]) cs)"

definition split :: "string \<Rightarrow> string list" where
  \<comment> \<open>\<open>s.split()\<close>: the maximal runs of non-whitespace characters\<close>
  "split s = split_acc [] s"

fun split_on :: "char \<Rightarrow> string \<Rightarrow> string list" where
  \<comment> \<open>\<open>s.split(sep)\<close> for a one-character separator: empty fields are kept\<close>
  "split_on sep [] = [[]]"
| "split_on sep (c # cs) =
     (if c = sep then [] # split_on sep cs
      else (case split_on sep cs of [] \<Rightarrow> [[c]] | w # ws \<Rightarrow> (c # w) # ws))"

fun startswith :: "string \<Rightarrow> string \<Rightarrow> bool" where
  \<comment> \<open>\<open>startswith p s\<close> is \<open>s.startswith(p)\<close>\<close>
  "startswith [] s = True"
| "startswith (p # ps) [] = False"
| "startswith (p # ps) (c # cs) = (p = c \<and> startswith ps cs)"

fun contains :: "string \<Rightarrow> string \<Rightarrow> bool" where
  \<comment> \<open>\<open>contains sub s\<close> is \<open>sub in s\<close>\<close>
  "contains sub [] = (sub = [])"
| "contains sub (c # cs) = (startswith sub (c # cs) \<or> contains sub cs)"

subsection \<open>Integers and their decimal text\<close>

definition digits_val :: "string \<Rightarrow> nat" where
  "digits_val s = foldl (\<lambda>n c. 10 * n + digit_val c) 0 s"

fun digit_groups_ok :: "bool \<Rightarrow> string \<Rightarrow> bool" where
  \<comment> \<open>digits with single underscores between them; the flag says the previous character was a
      digit\<close>
  "digit_groups_ok prev [] = prev"
| "digit_groups_ok prev (c # cs) =
     (if isdigit c then digit_groups_ok True cs
      else if c = CHR ''_'' then prev \<and> digit_groups_ok False cs
      else False)"

definition strip_c :: "string \<Rightarrow> string" where
  "strip_c s = rev (dropWhile isspace_c (rev (dropWhile isspace_c s)))"

definition max_str_digits :: nat where
  \<comment> \<open>\<open>sys.int_info.default_max_str_digits\<close>\<close>
  "max_str_digits = 4300"

definition py_int :: "string \<Rightarrow> error + int" where
  \<comment> \<open>\<open>int(s)\<close>: surrounding whitespace, an optional sign, decimal digits that single
      underscores may separate, no more digits than the interpreter converts\<close>
  "py_int s =
     (let t = strip_c s;
          neg = (t \<noteq> [] \<and> hd t = CHR ''-'');
          body = (if t \<noteq> [] \<and> (hd t = CHR ''-'' \<or> hd t = CHR ''+'') then tl t else t)
      in if digit_groups_ok False body \<and> length (filter isdigit body) \<le> max_str_digits
         then (let n = int (digits_val (filter isdigit body)) in Inr (if neg then - n else n))
         else Inl (ValueError_int s))"

fun digits :: "nat \<Rightarrow> string" where
  "digits n = (if n < 10 then [digit_chr n] else digits (n div 10) @ [digit_chr (n mod 10)])"

declare digits.simps [simp del]

definition py_str :: "int \<Rightarrow> string" where
  \<comment> \<open>\<open>str(n)\<close>, the \<open>{n}\<close> of an f-string\<close>
  "py_str n = (if n < 0 then CHR ''-'' # digits (nat (- n)) else digits (nat n))"

definition zfill :: "nat \<Rightarrow> string \<Rightarrow> string" where
  "zfill w s = replicate (w - length s) CHR ''0'' @ s"

definition rjust :: "nat \<Rightarrow> string \<Rightarrow> string" where
  "rjust w s = replicate (w - length s) CHR '' '' @ s"

definition format_0d :: "nat \<Rightarrow> int \<Rightarrow> string" where
  \<comment> \<open>\<open>f"{n:0wd}"\<close>: zeros between the sign and the digits, up to width \<open>w\<close>\<close>
  "format_0d w n =
     (if n < 0 then CHR ''-'' # zfill (w - 1) (digits (nat (- n))) else zfill w (digits (nat n)))"

definition format_d :: "nat \<Rightarrow> int \<Rightarrow> string" where
  \<comment> \<open>\<open>f"{n:wd}"\<close>: right-aligned with blanks in width \<open>w\<close>\<close>
  "format_d w n = rjust w (py_str n)"

subsection \<open>datetime\<close>

text \<open>
  A naive \<open>datetime\<close> is (year, month, day, hour, minute, second, microsecond); Python
  compares two of them field by field in this order, the lexicographic order of the tuple.
\<close>

type_synonym datetime = "nat \<times> nat \<times> nat \<times> nat \<times> nat \<times> nat \<times> nat"

definition is_leap :: "nat \<Rightarrow> bool" where
  "is_leap y = (y mod 4 = 0 \<and> (y mod 100 \<noteq> 0 \<or> y mod 400 = 0))"

definition days_in_month :: "nat \<Rightarrow> nat \<Rightarrow> nat" where
  "days_in_month y m =
     (if m = 2 then (if is_leap y then 29 else 28)
      else if m = 4 \<or> m = 6 \<or> m = 9 \<or> m = 11 then 30 else 31)"

definition strptime :: "string \<Rightarrow> error + datetime" where
  \<comment> \<open>\<open>datetime.strptime(s, "%Y%m%d%H%M%S")\<close> for a token \<open>s\<close> of 14 characters without
      whitespace, the only way \<open>date_part\<close> calls it: the six fields then have their full
      widths 4, 2, 2, 2, 2, 2, and a field out of range or a date that does not exist is a
      \<open>ValueError\<close>\<close>
  "strptime s =
     (if length s = 14 \<and> list_all isdigit s then
        (let y = digits_val (take 4 s);
             m = digits_val (take 2 (drop 4 s));
             d = digits_val (take 2 (drop 6 s));
             H = digits_val (take 2 (drop 8 s));
             M = digits_val (take 2 (drop 10 s));
             S = digits_val (take 2 (drop 12 s))
         in if 1 \<le> y \<and> 1 \<le> m \<and> m \<le> 12 \<and> 1 \<le> d \<and> d \<le> days_in_month y m
               \<and> H \<le> 23 \<and> M \<le> 59 \<and> S \<le> 59
            then Inr (y, m, d, H, M, S, 0)
            else Inl (ValueError_strptime s))
      else Inl (ValueError_strptime s))"

subsection \<open>pathlib\<close>

definition suffix_pos :: "string \<Rightarrow> nat option" where
  \<comment> \<open>the index of the last dot of a file name when it starts a suffix: neither the first
      nor the last character\<close>
  "suffix_pos n =
     (if CHR ''.'' \<in> set n then
        (let i = length n - length (takeWhile (\<lambda>c. c \<noteq> CHR ''.'') (rev n)) - 1
         in if 0 < i \<and> i < length n - 1 then Some i else None)
      else None)"

definition stem :: "string \<Rightarrow> string" where
  "stem n = (case suffix_pos n of None \<Rightarrow> n | Some i \<Rightarrow> take i n)"

definition with_suffix :: "string \<Rightarrow> string \<Rightarrow> string" where
  "with_suffix n suf = stem n @ suf"

section \<open>dnssec.py\<close>

subsection \<open>\<open>date_part\<close> and \<open>date_str\<close>\<close>

definition date_part :: "string \<Rightarrow> error + datetime" where
  "date_part colon_line =
     (let words = split colon_line in
      if length words \<le> 2 then Inl IndexError
      else (let dt = words ! 2 in
            if length dt \<noteq> length ''yyyymmddhhmmss''
            then Inl (ValueError (''Unexpected date format: '' @ [CHR 0x27] @ colon_line @ [CHR 0x27]))
            else strptime dt))"

subsection \<open>\<open>KeyFile\<close>\<close>

text \<open>
  The file a \<open>Path\<close> names: its file name (the last component of the path), its owner,
  group and mode, and the lines \<open>readlines()\<close> returns.
\<close>

record file_entry =
  f_name :: string
  f_owner :: string
  f_group :: string
  f_mode :: nat
  f_lines :: "string list"

record KeyFile =
  path_rr :: string
  path_pk :: string
  name :: string
  owner :: string
  group :: string
  perm :: nat
  zone :: string
  algo :: int
  keyid :: int
  type :: string
  d_create :: "datetime option"
  d_publish :: "datetime option"
  d_active :: "datetime option"
  d_inactive :: "datetime option"
  d_delete :: "datetime option"

definition set_date ::
  "string \<Rightarrow> (datetime \<Rightarrow> KeyFile) \<Rightarrow> error + KeyFile" where
  "set_date line upd = (case date_part line of Inl e \<Rightarrow> Inl e | Inr d \<Rightarrow> Inr (upd d))"

definition describe_line :: "KeyFile \<Rightarrow> string \<Rightarrow> error + KeyFile" where
  \<comment> \<open>the branch of the line \<open>This is a ... key, keyid ..., for ...\<close>\<close>
  "describe_line self line =
     (let words = split line in
      if length words \<le> 4 then Inl IndexError
      else if words ! 4 \<noteq> ''zone-signing'' \<and> words ! 4 \<noteq> ''key-signing''
      then Inl (ValueError (''Unexpected key type word: '' @ [CHR 0x27] @ words ! 4 @ [CHR 0x27]))
      else (let self1 = self\<lparr>type := (if words ! 4 = ''zone-signing'' then ''ZSK'' else ''KSK'')\<rparr> in
            if length words \<le> 7 then Inl IndexError
            else (case py_int (butlast (words ! 7)) of
                    Inl e \<Rightarrow> Inl e
                  | Inr n \<Rightarrow>
                      if keyid self1 \<noteq> n
                      then Inl (ValueError (name self1 @ '' claims to be for id ''
                                  @ py_str (keyid self1) @ '', but is not!''))
                      else if zone self1 \<noteq> last words
                      then Inl (ValueError (name self1 @ '' claims to be for id ''
                                  @ zone self1 @ '', but is not!''))
                      else Inr self1)))"

definition process_line :: "KeyFile \<Rightarrow> string \<Rightarrow> error + KeyFile" where
  \<comment> \<open>the body of the loop over \<open>key.readlines()\<close>\<close>
  "process_line self line =
     (if \<not> startswith '';'' line then Inr self
      else if contains ''Created:'' line then set_date line (\<lambda>d. self\<lparr>d_create := Some d\<rparr>)
      else if contains ''Publish:'' line then set_date line (\<lambda>d. self\<lparr>d_publish := Some d\<rparr>)
      else if contains ''Activate:'' line then set_date line (\<lambda>d. self\<lparr>d_active := Some d\<rparr>)
      else if contains ''Inactive:'' line then set_date line (\<lambda>d. self\<lparr>d_inactive := Some d\<rparr>)
      else if contains ''Delete:'' line then set_date line (\<lambda>d. self\<lparr>d_delete := Some d\<rparr>)
      else if contains ''This is a '' line \<and> contains ''keyid'' line \<and> contains ''for'' line
      then describe_line self line
      else Inr self)"

fun process_lines :: "KeyFile \<Rightarrow> string list \<Rightarrow> error + KeyFile" where
  "process_lines self [] = Inr self"
| "process_lines self (line # rest) =
     (case process_line self line of Inl e \<Rightarrow> Inl e | Inr self1 \<Rightarrow> process_lines self1 rest)"

definition init_fields :: "file_entry \<Rightarrow> error + KeyFile" where
  \<comment> \<open>\<open>__init__\<close> up to the \<open>with\<close> statement\<close>
  "init_fields path =
     (let ff = split_on CHR ''+'' (stem (f_name path)) in
      if length ff \<le> 1 then Inl IndexError
      else (case py_int (ff ! 1) of
              Inl e \<Rightarrow> Inl e
            | Inr a \<Rightarrow>
                if length ff \<le> 2 then Inl IndexError
                else (case py_int (ff ! 2) of
                        Inl e \<Rightarrow> Inl e
                      | Inr k \<Rightarrow>
                          Inr \<lparr>path_rr = f_name path,
                               path_pk = with_suffix (f_name path) ''.private'',
                               name = stem (f_name path),
                               owner = f_owner path,
                               group = f_group path,
                               perm = f_mode path,
                               zone = tl (ff ! 0),
                               algo = a,
                               keyid = k,
                               type = '''',
                               d_create = None,
                               d_publish = None,
                               d_active = None,
                               d_inactive = None,
                               d_delete = None\<rparr>)))"

definition KeyFile_init :: "file_entry \<Rightarrow> error + KeyFile" where
  "KeyFile_init path =
     (case init_fields path of Inl e \<Rightarrow> Inl e | Inr self \<Rightarrow> process_lines self (f_lines path))"

definition KeyFile_str :: "KeyFile \<Rightarrow> string" where
  "KeyFile_str self = zone self @ ''+'' @ format_0d 3 (algo self) @ ''+'' @ format_0d 5 (keyid self)"

definition KeyFile_sort_key :: "KeyFile \<Rightarrow> string" where
  "KeyFile_sort_key self =
     zone self @ ''+'' @ type self @ ''+'' @ format_d 3 (algo self) @ ''+'' @ format_d 5 (keyid self)"

definition reached :: "datetime option \<Rightarrow> datetime \<Rightarrow> bool" where
  \<comment> \<open>\<open>d is not None and d <= ref\<close>\<close>
  "reached d ref = (case d of None \<Rightarrow> False | Some t \<Rightarrow> t \<le> ref)"

definition state :: "datetime \<Rightarrow> KeyFile \<Rightarrow> datetime option \<Rightarrow> string" where
  \<comment> \<open>the first argument is what \<open>datetime.now()\<close> returns\<close>
  "state now self ref0 =
     (let ref = (case ref0 of None \<Rightarrow> now | Some r \<Rightarrow> r) in
      if reached (d_delete self) ref then ''DEL''
      else if reached (d_inactive self) ref then ''INAC''
      else if reached (d_active self) ref then ''ACT''
      else if reached (d_publish self) ref then ''PUB''
      else if (case d_create self of None \<Rightarrow> False | Some t \<Rightarrow> t > ref) then ''FUT''
      else '''')"

datatype change = Timestamp datetime | NoChange | Inconsistent_Dates

definition assigned :: "KeyFile \<Rightarrow> datetime list" where
  "assigned self =
     map the (filter (\<lambda>x. x \<noteq> None) [d_publish self, d_active self, d_inactive self, d_delete self])"

definition next_change :: "datetime \<Rightarrow> KeyFile \<Rightarrow> datetime option \<Rightarrow> change" where
  \<comment> \<open>\<open>NoChange\<close> is the \<open>None\<close> that \<open>next(..., None)\<close> returns, \<open>Inconsistent_Dates\<close> the
      string of that text\<close>
  "next_change now self ref0 =
     (let ref = (case ref0 of None \<Rightarrow> now | Some r \<Rightarrow> r);
          expected_order = sort (assigned self)
      in if expected_order = assigned self
         then (case filter (\<lambda>x. x > ref) (assigned self) of [] \<Rightarrow> NoChange | x # _ \<Rightarrow> Timestamp x)
         else Inconsistent_Dates)"

subsection \<open>\<open>DnsSec\<close>\<close>

text \<open>
  What a child process does is \<open>process_outcome\<close>: its exit code and what it writes to its
  standard output and to its standard error. \<open>subprocess.run\<close> returns a
  \<open>CompletedProcess\<close> whose \<open>stdout\<close> and \<open>stderr\<close> hold the text of a stream only when
  that stream was given \<open>subprocess.PIPE\<close>, and \<open>None\<close> otherwise.
\<close>

record process_outcome =
  p_exit :: int
  p_out :: string
  p_err :: string

record completed_process =
  returncode :: int
  stdout :: "string option"
  stderr :: "string option"

definition subprocess_run :: "process_outcome \<Rightarrow> bool \<Rightarrow> bool \<Rightarrow> completed_process" where
  \<comment> \<open>the two flags say whether \<open>stdout=subprocess.PIPE\<close> and \<open>stderr=subprocess.PIPE\<close>
      are passed\<close>
  "subprocess_run p pipe_stdout pipe_stderr =
     \<lparr>returncode = p_exit p,
      stdout = (if pipe_stdout then Some (p_out p) else None),
      stderr = (if pipe_stderr then Some (p_err p) else None)\<rparr>"

definition py_str_opt :: "string option \<Rightarrow> string" where
  \<comment> \<open>an optional string inside an f-string: \<open>None\<close> is written \<open>None\<close>\<close>
  "py_str_opt s = (case s of None \<Rightarrow> ''None'' | Some t \<Rightarrow> t)"

definition strip :: "string \<Rightarrow> string" where
  "strip s = rev (dropWhile isspace (rev (dropWhile isspace s)))"

definition is_linebreak :: "char \<Rightarrow> bool" where
  "is_linebreak c = (let n = (of_char c :: nat) in (10 \<le> n \<and> n \<le> 13) \<or> (28 \<le> n \<and> n \<le> 30))"

fun splitlines_acc :: "string \<Rightarrow> string \<Rightarrow> string list" where
  "splitlines_acc cur [] = (if cur = [] then [] else [cur])"
| "splitlines_acc cur [c] = (if is_linebreak c then [cur] else [cur @ [c]])"
| "splitlines_acc cur (c # d # cs) =
     (if c = CHR 0x0D \<and> d = CHR 0x0A then cur # splitlines_acc [] cs
      else if is_linebreak c then cur # splitlines_acc [] (d # cs)
      else splitlines_acc (cur @ [c]) (d # cs))"

definition splitlines :: "string \<Rightarrow> string list" where
  "splitlines s = splitlines_acc [] s"

definition call :: "(string list \<Rightarrow> process_outcome) \<Rightarrow> string list \<Rightarrow> error + string list" where
  \<comment> \<open>\<open>DnsSec._call\<close>; the first argument is the program that \<open>args\<close> starts. The line
      \<open>Executing: ...\<close> that it prints first is left out.\<close>
  "call run args =
     (let ret = subprocess_run (run args) True False in
      if returncode ret \<noteq> 0
      then Inl (OSError (''Error executing process: '' @ py_str (returncode ret) @ [CHR 0x0A]
                  @ py_str_opt (stderr ret)))
      else (case stdout ret of
              None \<Rightarrow> Inl AttributeError
            | Some out \<Rightarrow> Inr (splitlines (strip out))))"

text \<open>
  A pattern of \<open>Path.glob\<close> for one path component is a list of tokens: \<open>*\<close> matches any
  run of characters, \<open>?\<close> any one character, and any other character itself. Bracket
  expressions are not modelled: the statements about patterns are about patterns without
  \<open>[\<close>.
\<close>

datatype glob_token = Star | AnyChar | Lit char

fun glob_tokens :: "string \<Rightarrow> glob_token list" where
  "glob_tokens [] = []"
| "glob_tokens (c # cs) =
     (if c = CHR ''*'' then Star else if c = CHR ''?'' then AnyChar else Lit c) # glob_tokens cs"

fun glob_match :: "glob_token list \<Rightarrow> string \<Rightarrow> bool" where
  "glob_match [] s = (s = [])"
| "glob_match (Star # ts) [] = glob_match ts []"
| "glob_match (Star # ts) (c # cs) = (glob_match ts (c # cs) \<or> glob_match (Star # ts) cs)"
| "glob_match (AnyChar # ts) [] = False"
| "glob_match (AnyChar # ts) (c # cs) = glob_match ts cs"
| "glob_match (Lit a # ts) [] = False"
| "glob_match (Lit a # ts) (c # cs) = (a = c \<and> glob_match ts cs)"

definition fnmatch :: "string \<Rightarrow> string \<Rightarrow> bool" where
  \<comment> \<open>\<open>fnmatch n pat\<close>: the file name \<open>n\<close> matches the pattern \<open>pat\<close>\<close>
  "fnmatch n pat = glob_match (glob_tokens pat) n"

text \<open>
  The directory that a \<open>DnsSec\<close> is bound to is the list of its files, in the order in
  which \<open>glob\<close> meets them.
\<close>

type_synonym directory = "file_entry list"

definition glob :: "directory \<Rightarrow> string \<Rightarrow> file_entry list" where
  "glob d pat = filter (\<lambda>file. fnmatch (f_name file) pat) d"

definition path_exists :: "directory \<Rightarrow> string \<Rightarrow> bool" where
  "path_exists d n = (n \<in> set (map f_name d))"

text \<open>
  \<open>_iter_keyfiles\<close> is a generator: for each file of the glob, in order, it either prints
  a warning and goes on, or yields the file to the loop of \<open>list_keys\<close>.
\<close>

datatype event = Warn string | Yield file_entry

definition iter_keyfiles :: "directory \<Rightarrow> string \<Rightarrow> event list" where
  "iter_keyfiles d zone0 =
     map (\<lambda>file.
            if \<not> path_exists d (with_suffix (f_name file) ''.private'')
            then Warn (''Warning: '' @ f_name file @ '' exists, but corresponding .private does not!'')
            else Yield file)
         (glob d (''K'' @ zone0 @ ''+*+*.key''))"

fun collect_keys :: "event list \<Rightarrow> string list \<times> (error + KeyFile list)" where
  \<comment> \<open>the loop of \<open>list_keys\<close> over the generator: the warnings printed so far, and the list
      \<open>result\<close> or the exception that ended the loop\<close>
  "collect_keys [] = ([], Inr [])"
| "collect_keys (Warn w # es) = (case collect_keys es of (ws, r) \<Rightarrow> (w # ws, r))"
| "collect_keys (Yield pk # es) =
     (case KeyFile_init pk of
        Inl e \<Rightarrow> ([], Inl e)
      | Inr kf \<Rightarrow>
          (case collect_keys es of
             (ws, Inl e) \<Rightarrow> (ws, Inl e)
           | (ws, Inr result) \<Rightarrow> (ws, Inr (kf # result))))"

definition lstrip_dots :: "string \<Rightarrow> string" where
  \<comment> \<open>\<open>zone.lstrip(".")\<close>\<close>
  "lstrip_dots s = dropWhile (\<lambda>c. c = CHR ''.'') s"

definition list_keys :: "directory \<Rightarrow> string \<Rightarrow> bool \<Rightarrow> string list \<times> (error + KeyFile list)" where
  \<comment> \<open>the warnings printed, and the sorted list or the exception\<close>
  "list_keys d zone0 recursive =
     (let zone1 = (if recursive then ''*.'' @ lstrip_dots zone0 else zone0) in
      case collect_keys (iter_keyfiles d zone1) of
        (ws, Inl e) \<Rightarrow> (ws, Inl e)
      | (ws, Inr result) \<Rightarrow> (ws, Inr (sort_key KeyFile_sort_key result)))"

section \<open>Notions of the specification\<close>

subsection \<open>Schedules\<close>

text \<open>
  The schedule of a key is consistent when the timestamps that are set among publish,
  activate, inactivate and delete, taken in this order, never decrease.
\<close>

definition le_opt :: "datetime option \<Rightarrow> datetime option \<Rightarrow> bool" where
  "le_opt a b =
     (case a of None \<Rightarrow> True | Some x \<Rightarrow> (case b of None \<Rightarrow> True | Some y \<Rightarrow> x \<le> y))"

definition consistent_schedule :: "KeyFile \<Rightarrow> bool" where
  "consistent_schedule self =
     (le_opt (d_publish self) (d_active self) \<and> le_opt (d_publish self) (d_inactive self)
      \<and> le_opt (d_publish self) (d_delete self) \<and> le_opt (d_active self) (d_inactive self)
      \<and> le_opt (d_active self) (d_delete self) \<and> le_opt (d_inactive self) (d_delete self))"

definition scheduled :: "KeyFile \<Rightarrow> datetime set" where
  \<comment> \<open>the timestamps that are set among publish, activate, inactivate and delete\<close>
  "scheduled self = {x. Some x \<in> {d_publish self, d_active self, d_inactive self, d_delete self}}"

subsection \<open>The lines of a key file\<close>

datatype label = Created | Publish | Activate | Inactive | Delete

definition label_of :: "string \<Rightarrow> label option" where
  \<comment> \<open>the timestamp that a line sets: it is a comment line, and the label is the first of
      \<open>Created:\<close>, \<open>Publish:\<close>, \<open>Activate:\<close>, \<open>Inactive:\<close>, \<open>Delete:\<close> that occurs in it\<close>
  "label_of line =
     (if \<not> startswith '';'' line then None
      else if contains ''Created:'' line then Some Created
      else if contains ''Publish:'' line then Some Publish
      else if contains ''Activate:'' line then Some Activate
      else if contains ''Inactive:'' line then Some Inactive
      else if contains ''Delete:'' line then Some Delete
      else None)"

fun get_date :: "label \<Rightarrow> KeyFile \<Rightarrow> datetime option" where
  "get_date Created self = d_create self"
| "get_date Publish self = d_publish self"
| "get_date Activate self = d_active self"
| "get_date Inactive self = d_inactive self"
| "get_date Delete self = d_delete self"

fun put_date :: "label \<Rightarrow> datetime \<Rightarrow> KeyFile \<Rightarrow> KeyFile" where
  "put_date Created d self = self\<lparr>d_create := Some d\<rparr>"
| "put_date Publish d self = self\<lparr>d_publish := Some d\<rparr>"
| "put_date Activate d self = self\<lparr>d_active := Some d\<rparr>"
| "put_date Inactive d self = self\<lparr>d_inactive := Some d\<rparr>"
| "put_date Delete d self = self\<lparr>d_delete := Some d\<rparr>"

definition last_date :: "label \<Rightarrow> string list \<Rightarrow> datetime option" where
  \<comment> \<open>the date of the last line that sets the timestamp of this label\<close>
  "last_date lab ls =
     (case rev (filter (\<lambda>l. label_of l = Some lab) ls) of
        [] \<Rightarrow> None
      | l # _ \<Rightarrow> (case date_part l of Inl e \<Rightarrow> None | Inr d \<Rightarrow> Some d))"

definition date_ok :: "string \<Rightarrow> bool" where
  \<comment> \<open>the third word of the line exists, has 14 characters and is a date\<close>
  "date_ok line = (case date_part line of Inl e \<Rightarrow> False | Inr d \<Rightarrow> True)"

definition is_description :: "string \<Rightarrow> bool" where
  \<comment> \<open>the line is taken for the descriptive comment: a comment line without a timestamp
      label that contains \<open>This is a \<close>, \<open>keyid\<close> and \<open>for\<close>\<close>
  "is_description line =
     (startswith '';'' line \<and> label_of line = None
      \<and> contains ''This is a '' line \<and> contains ''keyid'' line \<and> contains ''for'' line)"

definition purpose_known :: "string \<Rightarrow> bool" where
  \<comment> \<open>the fifth word of the line is one of the two key purposes\<close>
  "purpose_known line =
     (4 < length (split line) \<and> (split line ! 4 = ''zone-signing'' \<or> split line ! 4 = ''key-signing''))"

text \<open>Two keys agree on what \<open>__init__\<close> takes from the path.\<close>

definition same_identity :: "KeyFile \<Rightarrow> KeyFile \<Rightarrow> bool" where
  "same_identity a b =
     (path_rr a = path_rr b \<and> path_pk a = path_pk b \<and> name a = name b \<and> owner a = owner b
      \<and> group a = group b \<and> perm a = perm b \<and> zone a = zone b \<and> algo a = algo b
      \<and> keyid a = keyid b)"

subsection \<open>Key files in a directory\<close>

definition paired :: "directory \<Rightarrow> file_entry \<Rightarrow> bool" where
  \<comment> \<open>the private file of the key file is in the directory\<close>
  "paired d file = path_exists d (with_suffix (f_name file) ''.private'')"

definition warning :: "file_entry \<Rightarrow> string" where
  "warning file = ''Warning: '' @ f_name file @ '' exists, but corresponding .private does not!''"

definition constructs :: "file_entry \<Rightarrow> bool" where
  "constructs file = (case KeyFile_init file of Inl e \<Rightarrow> False | Inr k \<Rightarrow> True)"

definition valid_key_filename :: "string \<Rightarrow> bool" where
  \<comment> \<open>\<open>K<zone>+<algorithm>+<keyId>.key\<close> with an algorithm of three digits, a key tag of
      five, and a zone written with characters that come after \<open>+\<close> (letters, digits,
      \<open>-\<close>, \<open>.\<close>, \<open>_\<close>)\<close>
  "valid_key_filename n =
     (case split_on CHR ''+'' (stem n) of
        [m, a, k] \<Rightarrow>
          n = stem n @ ''.key'' \<and> m \<noteq> [] \<and> hd m = CHR ''K''
          \<and> list_all (\<lambda>c. CHR ''+'' < c) (tl m)
          \<and> length a = 3 \<and> list_all isdigit a \<and> length k = 5 \<and> list_all isdigit k
      | _ \<Rightarrow> False)"

definition key_tuple :: "KeyFile \<Rightarrow> string \<times> string \<times> int \<times> int" where
  "key_tuple self = (zone self, type self, algo self, keyid self)"

definition wf_key :: "KeyFile \<Rightarrow> bool" where
  \<comment> \<open>a key as a well-formed key file gives it: a zone written with characters that come
      after \<open>+\<close>, one of the three types, an algorithm of at most three digits and a key tag
      of at most five\<close>
  "wf_key self =
     (list_all (\<lambda>c. CHR ''+'' < c) (zone self)
      \<and> (type self = ''ZSK'' \<or> type self = ''KSK'' \<or> type self = '''')
      \<and> 0 \<le> algo self \<and> algo self < 1000 \<and> 0 \<le> keyid self \<and> keyid self < 100000)"

subsection \<open>Example data\<close>

definition example_key :: KeyFile where
  "example_key =
     \<lparr>path_rr = ''Kexample.com.+008+12345.key'', path_pk = ''Kexample.com.+008+12345.private'',
      name = ''Kexample.com.+008+12345'', owner = ''bind'', group = ''bind'', perm = 33188,
      zone = ''example.com.'', algo = 8, keyid = 12345, type = ''ZSK'',
      d_create = None,
      d_publish = Some (2024, 1, 1, 0, 0, 0, 0),
      d_active = Some (2024, 2, 1, 0, 0, 0, 0),
      d_inactive = Some (2024, 6, 1, 0, 0, 0, 0),
      d_delete = Some (2024, 7, 1, 0, 0, 0, 0)\<rparr>"

definition example_path :: file_entry where
  "example_path =
     \<lparr>f_name = ''Kexample.com.+008+12345.key'', f_owner = ''bind'', f_group = ''bind'',
      f_mode = 33188,
      f_lines = [''; This is a zone-signing key, keyid 12345, for example.com.'',
                 ''; Created: 20231215120000 (Fri Dec 15 12:00:00 2023)'',
                 ''; Publish: 20240101000000 (Mon Jan  1 00:00:00 2024)'',
                 ''; Activate: 20240201000000 (Thu Feb  1 00:00:00 2024)'',
                 ''example.com. IN DNSKEY 256 3 8 AwEAAc''] \<rparr>"

definition parsed_example :: KeyFile where
  "parsed_example =
     \<lparr>path_rr = ''Kexample.com.+008+12345.key'', path_pk = ''Kexample.com.+008+12345.private'',
      name = ''Kexample.com.+008+12345'', owner = ''bind'', group = ''bind'', perm = 33188,
      zone = ''example.com.'', algo = 8, keyid = 12345, type = ''ZSK'',
      d_create = Some (2023, 12, 15, 12, 0, 0, 0),
      d_publish = Some (2024, 1, 1, 0, 0, 0, 0),
      d_active = Some (2024, 2, 1, 0, 0, 0, 0),
      d_inactive = None, d_delete = None\<rparr>"

definition example_private :: file_entry where
  "example_private =
     \<lparr>f_name = ''Kexample.com.+008+12345.private'', f_owner = ''bind'', f_group = ''bind'',
      f_mode = 33152, f_lines = [''Private-key-format: v1.3'', ''Algorithm: 8 (RSASHA256)'']\<rparr>"

definition example_dir :: directory where
  "example_dir = [example_path, example_private]"

definition dup_path :: file_entry where
  "dup_path =
     \<lparr>f_name = ''Kexample.com.+008+12345.key'', f_owner = ''bind'', f_group = ''bind'',
      f_mode = 33188,
      f_lines = [''; Created: 20231215120000 (Fri Dec 15 12:00:00 2023)'',
                 ''; Publish: 20240101000000 (Mon Jan  1 00:00:00 2024)'',
                 ''; Publish: 20240301000000 (Fri Mar  1 00:00:00 2024)'',
                 ''example.com. IN DNSKEY 256 3 8 AwEAAc'']\<rparr>"

definition dup_key :: KeyFile where
  "dup_key =
     \<lparr>path_rr = ''Kexample.com.+008+12345.key'', path_pk = ''Kexample.com.+008+12345.private'',
      name = ''Kexample.com.+008+12345'', owner = ''bind'', group = ''bind'', perm = 33188,
      zone = ''example.com.'', algo = 8, keyid = 12345, type = '''',
      d_create = Some (2023, 12, 15, 12, 0, 0, 0),
      d_publish = Some (2024, 3, 1, 0, 0, 0, 0),
      d_active = None, d_inactive = None, d_delete = None\<rparr>"

definition unknown_purpose_path :: file_entry where
  "unknown_purpose_path =
     example_path\<lparr>f_lines := [''; This is a foo-signing key, keyid 12345, for example.com.'']\<rparr>"

definition other_tag_path :: file_entry where
  "other_tag_path =
     example_path\<lparr>f_lines := [''; This is a zone-signing key, keyid 54321, for example.com.'']\<rparr>"

definition extra_field_path :: file_entry where
  "extra_field_path = example_path\<lparr>f_name := ''Kexample.com.+008+12345+extra.key''\<rparr>"

definition two_field_path :: file_entry where
  "two_field_path = example_path\<lparr>f_name := ''Kexample.com.+008.key''\<rparr>"

definition short_date_path :: file_entry where
  "short_date_path =
     example_path\<lparr>f_lines := [''; Created: 2023121512 (Fri Dec 15 12:00:00 2023)'']\<rparr>"

definition record_only_path :: file_entry where
  "record_only_path = example_path\<lparr>f_lines := [''example.com. IN DNSKEY 256 3 8 AwEAAc'']\<rparr>"

definition ksk_path :: file_entry where
  "ksk_path =
     \<lparr>f_name = ''Kexample.com.+008+00042.key'', f_owner = ''bind'', f_group = ''bind'',
      f_mode = 33188,
      f_lines = [''; This is a key-signing key, keyid 42, for example.com.'',
                 ''; Created: 20231215120000 (Fri Dec 15 12:00:00 2023)'',
                 ''example.com. IN DNSKEY 257 3 8 AwEAAd'']\<rparr>"

definition ksk_private :: file_entry where
  "ksk_private = example_private\<lparr>f_name := ''Kexample.com.+008+00042.private''\<rparr>"

definition parsed_ksk :: KeyFile where
  "parsed_ksk =
     \<lparr>path_rr = ''Kexample.com.+008+00042.key'', path_pk = ''Kexample.com.+008+00042.private'',
      name = ''Kexample.com.+008+00042'', owner = ''bind'', group = ''bind'', perm = 33188,
      zone = ''example.com.'', algo = 8, keyid = 42, type = ''KSK'',
      d_create = Some (2023, 12, 15, 12, 0, 0, 0),
      d_publish = None, d_active = None, d_inactive = None, d_delete = None\<rparr>"

definition orphan_path :: file_entry where
  "orphan_path = example_path\<lparr>f_name := ''Kexample.com.+013+54321.key''\<rparr>"

definition pair_dir :: directory where
  "pair_dir = [example_path, example_private, orphan_path, ksk_path, ksk_private]"

definition failing_tool :: "string list \<Rightarrow> process_outcome" where
  \<comment> \<open>a tool that writes a diagnostic to its standard error and exits with code 1\<close>
  "failing_tool args =
     \<lparr>p_exit = 1, p_out = '''',
      p_err = ''dnssec-settime: fatal: Invalid keyfile name Kexample.com.+008+12345: file not found''\<rparr>"

section \<open>The lifecycle state of a key\<close>

lemma reached_iff: "reached d t \<longleftrightarrow> (\<exists>x. d = Some x \<and> x \<le> t)"
proof (cases d)
  case None
  then show ?thesis unfolding reached_def by (simp only: option.case option.distinct simp_thms)
next
  case (Some y)
  have "reached d t = (y \<le> t)" unfolding reached_def Some by (simp only: option.case)
  then show ?thesis unfolding Some by blast
qed

lemma after_iff:
  "(case d of None \<Rightarrow> False | Some x \<Rightarrow> x > (t :: datetime)) \<longleftrightarrow> (\<exists>x. d = Some x \<and> t < x)"
proof (cases d)
  case None
  then show ?thesis by (simp only: option.case option.distinct simp_thms)
next
  case (Some y)
  have "(case d of None \<Rightarrow> False | Some x \<Rightarrow> x > t) = (t < y)"
    unfolding Some by (simp only: option.case)
  then show ?thesis unfolding Some by blast
qed

lemma state_chain:
  "state now self (Some t) =
     (if \<exists>d. d_delete self = Some d \<and> d \<le> t then ''DEL''
      else if \<exists>d. d_inactive self = Some d \<and> d \<le> t then ''INAC''
      else if \<exists>d. d_active self = Some d \<and> d \<le> t then ''ACT''
      else if \<exists>d. d_publish self = Some d \<and> d \<le> t then ''PUB''
      else if \<exists>d. d_create self = Some d \<and> t < d then ''FUT''
      else '''')"
  unfolding state_def Let_def reached_iff after_iff by (simp only: option.case)

text \<open>
  C1. For every key and every reference time \<open>t\<close>, \<open>state\<close> returns one label, chosen
  by a strict priority chain: \<open>DEL\<close> if delete is set and at or before \<open>t\<close>; otherwise
  \<open>INAC\<close> if inactivate is; otherwise \<open>ACT\<close> if activate is; otherwise \<open>PUB\<close> if publish
  is; otherwise \<open>FUT\<close> if created is set and strictly after \<open>t\<close>; otherwise the empty
  label. Without a reference time the clock is read. A key with publish 2024-01-01,
  activate 2024-02-01, inactivate 2024-06-01, delete 2024-07-01 and no creation time has
  the labels empty, \<open>PUB\<close>, \<open>ACT\<close>, \<open>INAC\<close> and \<open>DEL\<close> at 2023-12-01, 2024-01-15,
  2024-03-01, 2024-06-15 and 2024-08-01.
\<close>

theorem state_priority_chain:
  "state now self (Some t) =
     (if \<exists>d. d_delete self = Some d \<and> d \<le> t then ''DEL''
      else if \<exists>d. d_inactive self = Some d \<and> d \<le> t then ''INAC''
      else if \<exists>d. d_active self = Some d \<and> d \<le> t then ''ACT''
      else if \<exists>d. d_publish self = Some d \<and> d \<le> t then ''PUB''
      else if \<exists>d. d_create self = Some d \<and> t < d then ''FUT''
      else '''')
   \<and> state now self None = state now self (Some now)
   \<and> (d_create self = None
        \<and> d_publish self = Some (2024, 1, 1, 0, 0, 0, 0)
        \<and> d_active self = Some (2024, 2, 1, 0, 0, 0, 0)
        \<and> d_inactive self = Some (2024, 6, 1, 0, 0, 0, 0)
        \<and> d_delete self = Some (2024, 7, 1, 0, 0, 0, 0)
       \<longrightarrow> state now self (Some (2023, 12, 1, 0, 0, 0, 0)) = ''''
         \<and> state now self (Some (2024, 1, 15, 0, 0, 0, 0)) = ''PUB''
         \<and> state now self (Some (2024, 3, 1, 0, 0, 0, 0)) = ''ACT''
         \<and> state now self (Some (2024, 6, 15, 0, 0, 0, 0)) = ''INAC''
         \<and> state now self (Some (2024, 8, 1, 0, 0, 0, 0)) = ''DEL'')"
proof -
  have 2: "state now self None = state now self (Some now)"
    unfolding state_def by (simp only: option.case)
  have 3: "state now self (Some (2023, 12, 1, 0, 0, 0, 0)) = ''''
         \<and> state now self (Some (2024, 1, 15, 0, 0, 0, 0)) = ''PUB''
         \<and> state now self (Some (2024, 3, 1, 0, 0, 0, 0)) = ''ACT''
         \<and> state now self (Some (2024, 6, 15, 0, 0, 0, 0)) = ''INAC''
         \<and> state now self (Some (2024, 8, 1, 0, 0, 0, 0)) = ''DEL''"
    if "d_create self = None" "d_publish self = Some (2024, 1, 1, 0, 0, 0, 0)"
       "d_active self = Some (2024, 2, 1, 0, 0, 0, 0)"
       "d_inactive self = Some (2024, 6, 1, 0, 0, 0, 0)"
       "d_delete self = Some (2024, 7, 1, 0, 0, 0, 0)"
    unfolding state_def Let_def reached_def that by simp
  from state_chain 2 3 show ?thesis by blast
qed

theorem state_priority_chain_witness:
  "state (2025, 1, 1, 0, 0, 0, 0) example_key (Some (2023, 12, 1, 0, 0, 0, 0)) = ''''
   \<and> state (2025, 1, 1, 0, 0, 0, 0) example_key (Some (2024, 1, 15, 0, 0, 0, 0)) = ''PUB''
   \<and> state (2025, 1, 1, 0, 0, 0, 0) example_key (Some (2024, 3, 1, 0, 0, 0, 0)) = ''ACT''
   \<and> state (2025, 1, 1, 0, 0, 0, 0) example_key (Some (2024, 6, 15, 0, 0, 0, 0)) = ''INAC''
   \<and> state (2025, 1, 1, 0, 0, 0, 0) example_key (Some (2024, 8, 1, 0, 0, 0, 0)) = ''DEL''
   \<and> state (2025, 1, 1, 0, 0, 0, 0) example_key None = ''DEL''"
  using state_priority_chain [of "(2025, 1, 1, 0, 0, 0, 0)" example_key "(2025, 1, 1, 0, 0, 0, 0)"]
  by (simp add: example_key_def)

section \<open>The next change of a key\<close>

lemma sort_eq_iff_sorted: "sort xs = xs \<longleftrightarrow> sorted (xs :: 'a :: linorder list)"
  by (metis sorted_sort sorted_sort_id)

lemma first_after_is_Min:
  "sorted (xs :: 'a :: linorder list) \<Longrightarrow>
   (case filter (\<lambda>x. t < x) xs of [] \<Rightarrow> N | x # _ \<Rightarrow> T x)
     = (if {x \<in> set xs. t < x} = {} then N else T (Min {x \<in> set xs. t < x}))"
proof (induction xs)
  case Nil
  then show ?case by simp
next
  case (Cons a xs)
  show ?case
  proof (cases "t < a")
    case True
    have fin: "finite {x \<in> set xs. t < x}" by simp
    have eq: "{x \<in> set (a # xs). t < x} = insert a {x \<in> set xs. t < x}" using True by auto
    have le: "\<forall>y \<in> {x \<in> set xs. t < x}. a \<le> y" using Cons.prems by auto
    have "Min (insert a {x \<in> set xs. t < x}) = a"
      using fin le by (intro Min_eqI) auto
    moreover have "filter (\<lambda>x. t < x) (a # xs) = a # filter (\<lambda>x. t < x) xs"
      using True by simp
    moreover have "insert a {x \<in> set xs. t < x} \<noteq> {}" by simp
    ultimately show ?thesis unfolding eq by (simp only: list.case if_False)
  next
    case False
    then have eq: "{x \<in> set (a # xs). t < x} = {x \<in> set xs. t < x}" by auto
    have "sorted xs" using Cons.prems by simp
    then have ih: "(case filter (\<lambda>x. t < x) xs of [] \<Rightarrow> N | x # _ \<Rightarrow> T x)
     = (if {x \<in> set xs. t < x} = {} then N else T (Min {x \<in> set xs. t < x}))"
      by (rule Cons.IH)
    have "filter (\<lambda>x. t < x) (a # xs) = filter (\<lambda>x. t < x) xs" using False by simp
    then show ?thesis unfolding eq using ih by (simp only:)
  qed
qed

lemma somes_sorted:
  "sorted (map the (filter (\<lambda>x. x \<noteq> None) [p, a, i, d :: ('a :: linorder) option]))
   \<longleftrightarrow> (\<forall>x y. (p = Some x \<and> a = Some y \<longrightarrow> x \<le> y) \<and> (p = Some x \<and> i = Some y \<longrightarrow> x \<le> y)
       \<and> (p = Some x \<and> d = Some y \<longrightarrow> x \<le> y) \<and> (a = Some x \<and> i = Some y \<longrightarrow> x \<le> y)
       \<and> (a = Some x \<and> d = Some y \<longrightarrow> x \<le> y) \<and> (i = Some x \<and> d = Some y \<longrightarrow> x \<le> y))"
  by (cases p; cases a; cases i; cases d) auto

lemma le_opt_iff: "le_opt a b \<longleftrightarrow> (\<forall>x y. a = Some x \<and> b = Some y \<longrightarrow> x \<le> y)"
proof (cases a)
  case None
  then show ?thesis unfolding le_opt_def by (simp only: option.case option.distinct simp_thms)
next
  case sa: (Some x)
  show ?thesis
  proof (cases b)
    case None
    then show ?thesis unfolding le_opt_def sa by (simp only: option.case option.distinct simp_thms)
  next
    case sb: (Some y)
    have "le_opt a b = (x \<le> y)" unfolding le_opt_def sa sb by (simp only: option.case)
    then show ?thesis unfolding sa sb by blast
  qed
qed

lemma sorted_assigned: "sorted (assigned self) \<longleftrightarrow> consistent_schedule self"
  unfolding assigned_def consistent_schedule_def somes_sorted le_opt_iff by blast

lemma somes_set:
  "set (map the (filter (\<lambda>x. x \<noteq> None) [p, a, i, d])) = {x. Some x \<in> {p, a, i, d}}"
  by (cases p; cases a; cases i; cases d) auto

lemma set_assigned: "set (assigned self) = scheduled self"
  unfolding assigned_def scheduled_def by (rule somes_set)

text \<open>
  C2. When the timestamps that are set among publish, activate, inactivate and delete, in
  this order, never decrease, \<open>next_change\<close> returns the smallest of them that is strictly
  after the reference time, and \<open>None\<close> when there is none; when they do decrease somewhere
  it returns the mark \<open>Inconsistent Dates\<close>, whatever the reference time. It returns a value
  in every case. The creation time plays no part. Without a reference time the clock is
  read.
\<close>

theorem next_change_spec:
  "next_change now self (Some t) =
     (if consistent_schedule self
      then (if {x \<in> scheduled self. t < x} = {} then NoChange
            else Timestamp (Min {x \<in> scheduled self. t < x}))
      else Inconsistent_Dates)
   \<and> next_change now (self\<lparr>d_create := c\<rparr>) (Some t) = next_change now self (Some t)
   \<and> next_change now self None = next_change now self (Some now)"
proof -
  have a: "assigned (self\<lparr>d_create := c\<rparr>) = assigned self"
    by (simp add: assigned_def)
  have b: "(sort (assigned self) = assigned self) = consistent_schedule self"
    by (simp only: sort_eq_iff_sorted sorted_assigned)
  have d: "next_change now self r =
      (if consistent_schedule self
       then (case filter (\<lambda>x. x > (case r of None \<Rightarrow> now | Some r \<Rightarrow> r)) (assigned self) of
               [] \<Rightarrow> NoChange | x # _ \<Rightarrow> Timestamp x)
       else Inconsistent_Dates)" for r
    unfolding next_change_def Let_def b by (rule refl)
  have e: "(case filter (\<lambda>x. x > t) (assigned self) of [] \<Rightarrow> NoChange | x # _ \<Rightarrow> Timestamp x)
      = (if {x \<in> scheduled self. t < x} = {} then NoChange
         else Timestamp (Min {x \<in> scheduled self. t < x}))" if "consistent_schedule self"
    using first_after_is_Min [where xs = "assigned self" and t = t and N = NoChange and T = Timestamp]
      that
    unfolding sorted_assigned set_assigned by blast
  have 1: "next_change now self (Some t) =
     (if consistent_schedule self
      then (if {x \<in> scheduled self. t < x} = {} then NoChange
            else Timestamp (Min {x \<in> scheduled self. t < x}))
      else Inconsistent_Dates)"
  proof (cases "consistent_schedule self")
    case True
    then show ?thesis unfolding d using e by (simp only: if_True option.case)
  next
    case False
    then show ?thesis unfolding d by (simp only: if_False)
  qed
  have 2: "next_change now (self\<lparr>d_create := c\<rparr>) (Some t) = next_change now self (Some t)"
    unfolding next_change_def a by (rule refl)
  have 3: "next_change now self None = next_change now self (Some now)"
    unfolding next_change_def by (simp only: option.case)
  from 1 2 3 show ?thesis by blast
qed

section \<open>Decimal text\<close>

lemma replicate_numeral: "replicate (numeral k) x = x # replicate (pred_numeral k) x"
  by (simp add: numeral_eq_Suc)

lemma digits_lt10: "n < 10 \<Longrightarrow> digits n = [digit_chr n]"
  by (simp add: digits.simps)

lemma digits_ge10: "10 \<le> n \<Longrightarrow> digits n = digits (n div 10) @ [digit_chr (n mod 10)]"
  by (subst digits.simps) simp

lemma isdigit_cases:
  "isdigit c \<longleftrightarrow> c = CHR ''0'' \<or> c = CHR ''1'' \<or> c = CHR ''2'' \<or> c = CHR ''3'' \<or> c = CHR ''4''
     \<or> c = CHR ''5'' \<or> c = CHR ''6'' \<or> c = CHR ''7'' \<or> c = CHR ''8'' \<or> c = CHR ''9''"
  by (simp add: isdigit_def)

lemma lt10_cases:
  "(d :: nat) < 10 \<longleftrightarrow> d = 0 \<or> d = 1 \<or> d = 2 \<or> d = 3 \<or> d = 4 \<or> d = 5 \<or> d = 6 \<or> d = 7 \<or> d = 8 \<or> d = 9"
  by arith

lemma digit_val_chr: "d < 10 \<Longrightarrow> digit_val (digit_chr d) = d"
  unfolding lt10_cases by (elim disjE) (simp_all add: digit_val_def digit_chr_def)

lemma digit_chr_val: "isdigit c \<Longrightarrow> digit_chr (digit_val c) = c"
  unfolding isdigit_cases by (elim disjE) (simp_all add: digit_val_def digit_chr_def)

lemma isdigit_chr: "isdigit (digit_chr d)"
proof -
  have "d mod 10 < 10" by simp
  then show ?thesis
    unfolding lt10_cases digit_chr_def by (elim disjE) (simp_all add: isdigit_def)
qed

lemma digit_val_lt: "digit_val c < 10"
  by (simp add: digit_val_def)

lemma digit_val_zero: "isdigit c \<Longrightarrow> digit_val c = 0 \<Longrightarrow> c = CHR ''0''"
  unfolding isdigit_cases by (elim disjE) (simp_all add: digit_val_def)

lemma digits_val_Nil: "digits_val [] = 0"
  by (simp add: digits_val_def)

lemma digits_val_snoc: "digits_val (s @ [c]) = 10 * digits_val s + digit_val c"
  by (simp add: digits_val_def)

lemma digits_val_lt: "digits_val s < 10 ^ length s"
proof (induction s rule: rev_induct)
  case Nil
  then show ?case by (simp add: digits_val_Nil)
next
  case (snoc c s)
  have "digit_val c < 10" by (rule digit_val_lt)
  then show ?case using snoc by (simp add: digits_val_snoc)
qed

lemma digits_val_zero:
  "list_all isdigit s \<Longrightarrow> digits_val s = 0 \<Longrightarrow> s = replicate (length s) CHR ''0''"
proof (induction s rule: rev_induct)
  case Nil
  then show ?case by simp
next
  case (snoc c s)
  from snoc.prems have z: "digits_val s = 0" "digit_val c = 0" by (simp_all add: digits_val_snoc)
  from snoc.prems have d: "list_all isdigit s" "isdigit c" by simp_all
  have "c = CHR ''0''" using d z by (simp add: digit_val_zero)
  moreover have "s = replicate (length s) CHR ''0''" using snoc.IH d z by simp
  ultimately have "s @ [c] = replicate (length s) CHR ''0'' @ [CHR ''0'']" by simp
  then show ?case by (simp add: replicate_append_same)
qed

lemma length_digits_pos: "0 < length (digits n)"
  by (subst digits.simps) simp

lemma length_digits_le: "n < 10 ^ w \<Longrightarrow> 0 < w \<Longrightarrow> length (digits n) \<le> w"
proof (induction n arbitrary: w rule: digits.induct)
  case (1 n)
  show ?case
  proof (cases "n < 10")
    case True
    then show ?thesis using "1.prems" by (simp add: digits_lt10)
  next
    case False
    then have ge: "10 \<le> n" by simp
    obtain v where w: "w = Suc v" using "1.prems" by (cases w) auto
    have "v \<noteq> 0" using "1.prems" ge w by (cases v) auto
    moreover have "n div 10 < 10 ^ v" using "1.prems" w by (simp add: less_mult_imp_div_less mult.commute)
    ultimately have "length (digits (n div 10)) \<le> v" using "1.IH" [OF False] by simp
    then show ?thesis using ge w by (simp add: digits_ge10)
  qed
qed

lemma zfill_digits_val:
  "list_all isdigit s \<Longrightarrow> s \<noteq> [] \<Longrightarrow> zfill (length s) (digits (digits_val s)) = s"
proof (induction s rule: rev_induct)
  case Nil
  then show ?case by simp
next
  case (snoc c s)
  from snoc.prems have d: "list_all isdigit s" "isdigit c" by simp_all
  have cv: "digit_chr (digit_val c) = c" using d by (simp add: digit_chr_val)
  have lt: "digit_val c < 10" by (rule digit_val_lt)
  show ?case
  proof (cases "digits_val s = 0")
    case True
    then have "digits_val (s @ [c]) = digit_val c" by (simp add: digits_val_snoc)
    then have "digits (digits_val (s @ [c])) = [c]" using lt cv by (simp add: digits_lt10)
    moreover have "s = replicate (length s) CHR ''0''" using digits_val_zero d True by blast
    ultimately show ?thesis by (simp add: zfill_def)
  next
    case False
    then have ne: "s \<noteq> []" by (auto simp: digits_val_Nil)
    have ge: "10 \<le> digits_val (s @ [c])" using False by (simp add: digits_val_snoc)
    have dv: "digits_val (s @ [c]) div 10 = digits_val s" "digits_val (s @ [c]) mod 10 = digit_val c"
      using lt by (simp_all add: digits_val_snoc)
    have ih: "zfill (length s) (digits (digits_val s)) = s" using snoc.IH d ne by simp
    have "digits (digits_val (s @ [c])) = digits (digits_val s) @ [c]"
      using ge dv cv by (simp add: digits_ge10)
    then show ?thesis using ih by (simp add: zfill_def)
  qed
qed

lemma not_space_digit: "isdigit c \<Longrightarrow> \<not> isspace_c c"
  unfolding isdigit_cases by (elim disjE) (simp_all add: isspace_c_def)

lemma dropWhile_hd: "xs \<noteq> [] \<Longrightarrow> \<not> P (hd xs) \<Longrightarrow> dropWhile P xs = xs"
  by (cases xs) auto

lemma strip_c_id: "s \<noteq> [] \<Longrightarrow> \<not> isspace_c (hd s) \<Longrightarrow> \<not> isspace_c (last s) \<Longrightarrow> strip_c s = s"
proof -
  assume a: "s \<noteq> []" "\<not> isspace_c (hd s)" "\<not> isspace_c (last s)"
  then have 1: "dropWhile isspace_c s = s" by (simp add: dropWhile_hd)
  have "rev s \<noteq> []" "hd (rev s) = last s" using a by (simp_all add: hd_rev)
  then have 2: "dropWhile isspace_c (rev s) = rev s" using a by (simp add: dropWhile_hd)
  show ?thesis unfolding strip_c_def 1 2 by simp
qed

lemma digit_groups_ok_digits: "list_all isdigit s \<Longrightarrow> digit_groups_ok p s = (p \<or> s \<noteq> [])"
  by (induction s arbitrary: p) simp_all

lemma filter_isdigit_id: "list_all isdigit s \<Longrightarrow> filter isdigit s = s"
  by (induction s) simp_all

lemma split_on_no_sep: "sep \<notin> set xs \<Longrightarrow> split_on sep xs = [xs]"
proof (induction xs)
  case Nil
  then show ?case by simp
next
  case (Cons a xs)
  then have "a \<noteq> sep" "split_on sep xs = [xs]" by auto
  then show ?case by simp
qed

lemma split_on_append: "sep \<notin> set xs \<Longrightarrow> split_on sep (xs @ sep # rest) = xs # split_on sep rest"
proof (induction xs)
  case Nil
  then show ?case by simp
next
  case (Cons a xs)
  then have "a \<noteq> sep" "split_on sep (xs @ sep # rest) = xs # split_on sep rest" by auto
  then show ?case by simp
qed

lemma stem_key: "xs \<noteq> [] \<Longrightarrow> stem (xs @ ''.key'') = xs"
  by (simp add: stem_def suffix_pos_def)


lemma isdigit_not_sign: "isdigit c \<Longrightarrow> c \<noteq> CHR ''-'' \<and> c \<noteq> CHR ''+''"
  unfolding isdigit_cases by (elim disjE) simp_all

lemma list_all_hd_last: "list_all P s \<Longrightarrow> s \<noteq> [] \<Longrightarrow> P (hd s) \<and> P (last s)"
  by (simp add: list_all_iff)

lemma plus_not_digit: "list_all isdigit s \<Longrightarrow> CHR ''+'' \<notin> set s"
proof (induction s)
  case Nil
  then show ?case by simp
next
  case (Cons a s)
  then have "isdigit a" "CHR ''+'' \<notin> set s" by simp_all
  then show ?case using isdigit_not_sign [of a] by auto
qed

lemma format_0d_digits:
  "list_all isdigit s \<Longrightarrow> s \<noteq> [] \<Longrightarrow> format_0d (length s) (int (digits_val s)) = s"
  by (simp add: format_0d_def zfill_digits_val)

lemma py_int_digits:
  assumes "list_all isdigit s" "s \<noteq> []" "length s \<le> max_str_digits"
  shows "py_int s = Inr (int (digits_val s))"
proof -
  have h: "isdigit (hd s)" "isdigit (last s)" using assms list_all_hd_last by blast+
  then have st: "strip_c s = s" using assms by (simp add: strip_c_id not_space_digit)
  have ns: "hd s \<noteq> CHR ''-''" "hd s \<noteq> CHR ''+''" using h isdigit_not_sign by blast+
  have ok: "digit_groups_ok False s" using assms by (simp add: digit_groups_ok_digits)
  have f: "filter isdigit s = s" using assms by (simp add: filter_isdigit_id)
  show ?thesis unfolding py_int_def st Let_def
    using ns ok f assms(3) by simp
qed

section \<open>The fields that \<open>__init__\<close> takes from the file name\<close>

lemma set_date_Inr: "set_date l upd = Inr s \<Longrightarrow> \<exists>d. date_part l = Inr d \<and> s = upd d"
  unfolding set_date_def by (cases "date_part l") simp_all

lemma describe_line_Inr:
  "describe_line self l = Inr s \<Longrightarrow>
     s = self\<lparr>type := (if split l ! 4 = ''zone-signing'' then ''ZSK'' else ''KSK'')\<rparr>"
  unfolding describe_line_def Let_def
  by (simp split: if_splits sum.splits)

lemma process_line_branches:
  "process_line self l = Inr self
    \<or> process_line self l = set_date l (\<lambda>d. self\<lparr>d_create := Some d\<rparr>)
    \<or> process_line self l = set_date l (\<lambda>d. self\<lparr>d_publish := Some d\<rparr>)
    \<or> process_line self l = set_date l (\<lambda>d. self\<lparr>d_active := Some d\<rparr>)
    \<or> process_line self l = set_date l (\<lambda>d. self\<lparr>d_inactive := Some d\<rparr>)
    \<or> process_line self l = set_date l (\<lambda>d. self\<lparr>d_delete := Some d\<rparr>)
    \<or> process_line self l = describe_line self l"
  unfolding process_line_def by presburger

lemma set_date_identity:
  "set_date l upd = Inr s \<Longrightarrow> (\<And>d. same_identity (upd d) self) \<Longrightarrow> same_identity s self"
proof -
  assume a: "set_date l upd = Inr s" and b: "\<And>d. same_identity (upd d) self"
  from set_date_Inr [OF a] obtain d where "s = upd d" by blast
  then show ?thesis using b by simp
qed

lemma process_line_identity:
  assumes "process_line self l = Inr s"
  shows "same_identity s self"
proof -
  have r: "same_identity self self" by (simp add: same_identity_def)
  have c: "same_identity (self\<lparr>d_create := Some d\<rparr>) self" for d by (simp add: same_identity_def)
  have p: "same_identity (self\<lparr>d_publish := Some d\<rparr>) self" for d by (simp add: same_identity_def)
  have a: "same_identity (self\<lparr>d_active := Some d\<rparr>) self" for d by (simp add: same_identity_def)
  have i: "same_identity (self\<lparr>d_inactive := Some d\<rparr>) self" for d by (simp add: same_identity_def)
  have d: "same_identity (self\<lparr>d_delete := Some d\<rparr>) self" for d by (simp add: same_identity_def)
  have t: "same_identity (self\<lparr>type := x\<rparr>) self" for x by (simp add: same_identity_def)
  from process_line_branches [of self l] show ?thesis
  proof (elim disjE)
    assume "process_line self l = Inr self"
    then show ?thesis using assms r by simp
  next
    assume "process_line self l = set_date l (\<lambda>d. self\<lparr>d_create := Some d\<rparr>)"
    then have "set_date l (\<lambda>d. self\<lparr>d_create := Some d\<rparr>) = Inr s" using assms by simp
    from set_date_identity [OF this c] show ?thesis .
  next
    assume "process_line self l = set_date l (\<lambda>d. self\<lparr>d_publish := Some d\<rparr>)"
    then have "set_date l (\<lambda>d. self\<lparr>d_publish := Some d\<rparr>) = Inr s" using assms by simp
    from set_date_identity [OF this p] show ?thesis .
  next
    assume "process_line self l = set_date l (\<lambda>d. self\<lparr>d_active := Some d\<rparr>)"
    then have "set_date l (\<lambda>d. self\<lparr>d_active := Some d\<rparr>) = Inr s" using assms by simp
    from set_date_identity [OF this a] show ?thesis .
  next
    assume "process_line self l = set_date l (\<lambda>d. self\<lparr>d_inactive := Some d\<rparr>)"
    then have "set_date l (\<lambda>d. self\<lparr>d_inactive := Some d\<rparr>) = Inr s" using assms by simp
    from set_date_identity [OF this i] show ?thesis .
  next
    assume "process_line self l = set_date l (\<lambda>d. self\<lparr>d_delete := Some d\<rparr>)"
    then have "set_date l (\<lambda>d. self\<lparr>d_delete := Some d\<rparr>) = Inr s" using assms by simp
    from set_date_identity [OF this d] show ?thesis .
  next
    assume "process_line self l = describe_line self l"
    then have "describe_line self l = Inr s" using assms by simp
    from describe_line_Inr [OF this] have "\<exists>x. s = self\<lparr>type := x\<rparr>" by (rule exI)
    then show ?thesis using t by blast
  qed
qed

lemma same_identity_trans: "same_identity a b \<Longrightarrow> same_identity b c \<Longrightarrow> same_identity a c"
  unfolding same_identity_def by simp

lemma process_lines_identity: "process_lines self ls = Inr s \<Longrightarrow> same_identity s self"
proof (induction ls arbitrary: self)
  case Nil
  then show ?case by (simp add: same_identity_def)
next
  case (Cons l ls)
  then obtain s1 where 1: "process_line self l = Inr s1" and 2: "process_lines s1 ls = Inr s"
    by (cases "process_line self l") simp_all
  from Cons.IH [OF 2] process_line_identity [OF 1] show ?case
    by (rule same_identity_trans)
qed

lemma init_fields_valid_name:
  assumes z: "CHR ''+'' \<notin> set z"
      and a: "list_all isdigit a" "a \<noteq> []" "length a \<le> max_str_digits"
      and k: "list_all isdigit k" "k \<noteq> []" "length k \<le> max_str_digits"
      and n: "f_name path = ''K'' @ z @ ''+'' @ a @ ''+'' @ k @ ''.key''"
  shows "\<exists>self. init_fields path = Inr self \<and> name self = ''K'' @ z @ ''+'' @ a @ ''+'' @ k
           \<and> zone self = z \<and> algo self = int (digits_val a) \<and> keyid self = int (digits_val k)
           \<and> type self = '''' \<and> path_rr self = f_name path"
proof -
  have "f_name path = (''K'' @ z @ ''+'' @ a @ ''+'' @ k) @ ''.key''" using n by simp
  then have st: "stem (f_name path) = ''K'' @ z @ ''+'' @ a @ ''+'' @ k"
    using stem_key [of "''K'' @ z @ ''+'' @ a @ ''+'' @ k"] by simp
  have kz: "CHR ''+'' \<notin> set (CHR ''K'' # z)" using z by simp
  have 1: "split_on CHR ''+'' ((CHR ''K'' # z) @ CHR ''+'' # (a @ CHR ''+'' # k))
      = (CHR ''K'' # z) # split_on CHR ''+'' (a @ CHR ''+'' # k)"
    using kz by (rule split_on_append)
  have 2: "split_on CHR ''+'' (a @ CHR ''+'' # k) = a # split_on CHR ''+'' k"
    using plus_not_digit [OF a(1)] by (rule split_on_append)
  have 3: "split_on CHR ''+'' k = [k]"
    using plus_not_digit [OF k(1)] by (rule split_on_no_sep)
  have ff: "split_on CHR ''+'' (''K'' @ z @ ''+'' @ a @ ''+'' @ k) = [CHR ''K'' # z, a, k]"
    using 1 2 3 by simp
  show ?thesis
    unfolding init_fields_def Let_def st ff
    by (simp add: py_int_digits [OF a] py_int_digits [OF k] n)
qed

text \<open>
  C4. A file name \<open>K<zone>+<algorithm>+<keyId>.key\<close>, with a zone without \<open>+\<close>, an
  algorithm of three digits and a key tag of five digits, is parsed into that zone and
  those two numbers, and writing the three parsed fields back in this format (the text of
  \<open>__str__\<close> between \<open>K\<close> and \<open>.key\<close>) gives the file name again.
\<close>

theorem filename_roundtrip:
  assumes "CHR ''+'' \<notin> set z"
      and "list_all isdigit a" "length a = 3"
      and "list_all isdigit k" "length k = 5"
      and "f_name path = ''K'' @ z @ ''+'' @ a @ ''+'' @ k @ ''.key''"
  shows "(\<exists>self. init_fields path = Inr self)
     \<and> (\<forall>self. init_fields path = Inr self \<or> KeyFile_init path = Inr self \<longrightarrow>
            zone self = z \<and> algo self = int (digits_val a) \<and> keyid self = int (digits_val k)
            \<and> ''K'' @ KeyFile_str self @ ''.key'' = f_name path)"
proof -
  have ne: "a \<noteq> []" "k \<noteq> []" using assms by auto
  have le: "length a \<le> max_str_digits" "length k \<le> max_str_digits"
    using assms by (simp_all add: max_str_digits_def)
  from init_fields_valid_name [OF assms(1) assms(2) ne(1) le(1) assms(4) ne(2) le(2) assms(6)]
  obtain s0 where s0: "init_fields path = Inr s0" "zone s0 = z" "algo s0 = int (digits_val a)"
    "keyid s0 = int (digits_val k)" by blast
  have fa: "format_0d 3 (int (digits_val a)) = a"
    using format_0d_digits [OF assms(2) ne(1)] assms(3) by simp
  have fk: "format_0d 5 (int (digits_val k)) = k"
    using format_0d_digits [OF assms(4) ne(2)] assms(5) by simp
  have r: "zone self = z \<and> algo self = int (digits_val a) \<and> keyid self = int (digits_val k)
            \<and> ''K'' @ KeyFile_str self @ ''.key'' = f_name path"
    if "same_identity self s0" for self
    using that s0 assms(6) unfolding same_identity_def KeyFile_str_def by (simp add: fa fk)
  have i: "same_identity self s0" if "init_fields path = Inr self" for self
    using that s0 by (simp add: same_identity_def)
  have j: "same_identity self s0" if "KeyFile_init path = Inr self" for self
    using that s0 process_lines_identity unfolding KeyFile_init_def by simp
  show ?thesis using s0(1) r i j by blast
qed

section \<open>The lines of a key file\<close>

lemma process_line_alt:
  "process_line self line =
     (case label_of line of
        Some lab \<Rightarrow> set_date line (\<lambda>d. put_date lab d self)
      | None \<Rightarrow> if is_description line then describe_line self line else Inr self)"
  unfolding process_line_def label_of_def is_description_def by simp

lemma process_lines_append:
  "process_lines self (xs @ ys) =
     (case process_lines self xs of Inl e \<Rightarrow> Inl e | Inr s \<Rightarrow> process_lines s ys)"
  by (induction xs arbitrary: self) (simp_all split: sum.splits)

lemma process_lines_fails:
  "l \<in> set ls \<Longrightarrow> (\<And>s. \<exists>e. process_line s l = Inl e) \<Longrightarrow> \<exists>e. process_lines self ls = Inl e"
proof (induction ls arbitrary: self)
  case Nil
  then show ?case by simp
next
  case (Cons x ls)
  show ?case
  proof (cases "process_line self x")
    case (Inl e)
    then show ?thesis by simp
  next
    case (Inr s1)
    have "x \<noteq> l" using Cons.prems(2) [of self] Inr by auto
    then have "l \<in> set ls" using Cons.prems(1) by simp
    from Cons.IH [OF this Cons.prems(2)] obtain e where "process_lines s1 ls = Inl e" by blast
    then show ?thesis using Inr by simp
  qed
qed

lemma get_put_date: "get_date lab (put_date lab' d self) = (if lab = lab' then Some d else get_date lab self)"
  by (cases lab; cases lab') simp_all

lemma get_date_type: "get_date lab (self\<lparr>type := x\<rparr>) = get_date lab self"
  by (cases lab) simp_all

lemma process_line_get_date:
  assumes "process_line self l = Inr s"
  shows "get_date lab s =
     (if label_of l = Some lab then (case date_part l of Inl e \<Rightarrow> None | Inr d \<Rightarrow> Some d)
      else get_date lab self)"
proof (cases "label_of l")
  case None
  show ?thesis
  proof (cases "is_description l")
    case True
    then have "describe_line self l = Inr s" using assms None by (simp add: process_line_alt)
    from describe_line_Inr [OF this] have "\<exists>x. s = self\<lparr>type := x\<rparr>" by (rule exI)
    then show ?thesis using None get_date_type by auto
  next
    case False
    then have "s = self" using assms None by (simp add: process_line_alt)
    then show ?thesis using None by simp
  qed
next
  case (Some lab')
  then have "set_date l (\<lambda>d. put_date lab' d self) = Inr s" using assms by (simp add: process_line_alt)
  from set_date_Inr [OF this] obtain d where d: "date_part l = Inr d" "s = put_date lab' d self"
    by blast
  show ?thesis unfolding d Some get_put_date by auto
qed

lemma process_lines_get_date:
  "process_lines self ls = Inr s \<Longrightarrow>
   get_date lab s =
     (case rev (filter (\<lambda>l. label_of l = Some lab) ls) of
        [] \<Rightarrow> get_date lab self
      | l # _ \<Rightarrow> (case date_part l of Inl e \<Rightarrow> None | Inr d \<Rightarrow> Some d))"
proof (induction ls arbitrary: s rule: rev_induct)
  case Nil
  then show ?case by simp
next
  case (snoc x xs)
  from snoc.prems obtain s1 where 1: "process_lines self xs = Inr s1" and 2: "process_line s1 x = Inr s"
    unfolding process_lines_append by (cases "process_lines self xs")
      (simp_all split: sum.splits)
  note ih = snoc.IH [OF 1]
  note st = process_line_get_date [OF 2, of lab]
  show ?case
  proof (cases "label_of x = Some lab")
    case True
    then show ?thesis using st by simp
  next
    case False
    then show ?thesis using st ih by simp
  qed
qed

lemmas eval_defs =
  KeyFile_init_def init_fields_def stem_def suffix_pos_def with_suffix_def py_int_def strip_c_def
  isspace_c_def isspace_def isdigit_def digits_val_def digit_val_def max_str_digits_def
  process_line_def set_date_def
  date_part_def split_def strptime_def days_in_month_def is_leap_def describe_line_def Let_def

lemma KeyFile_init_dup_path: "KeyFile_init dup_path = Inr dup_key"
  by (simp add: dup_path_def dup_key_def eval_defs)

lemma init_fields_Inr:
  assumes "init_fields path = Inr self"
  shows "type self = '''' \<and> d_create self = None \<and> d_publish self = None \<and> d_active self = None
     \<and> d_inactive self = None \<and> d_delete self = None \<and> path_rr self = f_name path
     \<and> name self = stem (f_name path) \<and> zone self = tl (split_on CHR ''+'' (stem (f_name path)) ! 0)
     \<and> py_int (split_on CHR ''+'' (stem (f_name path)) ! 1) = Inr (algo self)
     \<and> py_int (split_on CHR ''+'' (stem (f_name path)) ! 2) = Inr (keyid self)
     \<and> 2 < length (split_on CHR ''+'' (stem (f_name path)))"
  using assms unfolding init_fields_def Let_def
  by (simp split: if_splits sum.splits) auto

lemma init_fields_dates: "init_fields path = Inr self \<Longrightarrow> get_date lab self = None"
  using init_fields_Inr [of path self] by (cases lab) simp_all

lemma process_lines_succeeds:
  "(\<And>l s. l \<in> set ls \<Longrightarrow> \<exists>s'. process_line s l = Inr s') \<Longrightarrow> \<exists>s'. process_lines self ls = Inr s'"
proof (induction ls arbitrary: self)
  case Nil
  then show ?case by simp
next
  case (Cons x ls)
  from Cons.prems [of x self] obtain s1 where 1: "process_line self x = Inr s1" by auto
  have "\<exists>s'. process_lines s1 ls = Inr s'" using Cons.prems by (intro Cons.IH) simp
  then show ?case using 1 by simp
qed

lemma process_line_date_ok:
  assumes "\<not> is_description l" "label_of l \<noteq> None \<longrightarrow> date_ok l"
  shows "\<exists>s'. process_line s l = Inr s'"
proof (cases "label_of l")
  case None
  then show ?thesis using assms by (simp add: process_line_alt)
next
  case (Some lab)
  then have "date_ok l" using assms by simp
  then obtain d where "date_part l = Inr d" unfolding date_ok_def by (cases "date_part l") simp_all
  then show ?thesis using Some by (simp add: process_line_alt set_date_def)
qed

text \<open>
  C10. A comment line sets the timestamp of the first label among \<open>Created:\<close>,
  \<open>Publish:\<close>, \<open>Activate:\<close>, \<open>Inactive:\<close>, \<open>Delete:\<close> that occurs in it. When several
  lines of a file set the same timestamp, the constructed key holds the date of the last
  of them in file order (and no date when no line sets it); a repeated label raises
  nothing: a file whose comment lines all carry a label and a well-formed date is
  constructed whenever its name is parsed.
\<close>

theorem last_label_line_wins:
  "(KeyFile_init path = Inr self \<longrightarrow> get_date lab self = last_date lab (f_lines path))
   \<and> (init_fields path = Inr s0
        \<and> (\<forall>l \<in> set (f_lines path). \<not> is_description l \<and> (label_of l \<noteq> None \<longrightarrow> date_ok l))
       \<longrightarrow> (\<exists>s. KeyFile_init path = Inr s))"
proof -
  have 1: "get_date lab self = last_date lab (f_lines path)" if a: "KeyFile_init path = Inr self"
  proof -
    from a obtain s1 where i: "init_fields path = Inr s1"
      and p: "process_lines s1 (f_lines path) = Inr self"
      unfolding KeyFile_init_def by (cases "init_fields path") simp_all
    show ?thesis
      unfolding process_lines_get_date [OF p, of lab] last_date_def init_fields_dates [OF i] ..
  qed
  have 2: "\<exists>s. KeyFile_init path = Inr s"
    if i: "init_fields path = Inr s0"
      and l: "\<forall>l \<in> set (f_lines path). \<not> is_description l \<and> (label_of l \<noteq> None \<longrightarrow> date_ok l)"
  proof -
    have "\<exists>s'. process_lines s0 (f_lines path) = Inr s'"
      using l by (intro process_lines_succeeds process_line_date_ok) blast+
    then show ?thesis unfolding KeyFile_init_def i by simp
  qed
  from 1 2 show ?thesis by blast
qed

lemma is_description_label: "is_description l \<Longrightarrow> label_of l = None"
  by (simp add: is_description_def)

lemma process_line_description: "is_description l \<Longrightarrow> process_line s l = describe_line s l"
  by (simp add: process_line_alt is_description_label)

lemma label_of_not_comment: "\<not> startswith '';'' l \<Longrightarrow> label_of l = None"
  by (simp add: label_of_def)

lemma process_line_not_comment: "\<not> startswith '';'' l \<Longrightarrow> process_line s l = Inr s"
  by (simp add: process_line_def)

lemma describe_line_unknown:
  "\<not> purpose_known l \<Longrightarrow> \<exists>e. describe_line s l = Inl e"
  unfolding describe_line_def purpose_known_def Let_def by auto

lemma process_line_type:
  assumes "process_line s l = Inr s'"
  shows "type s' = (if is_description l
                    then (if split l ! 4 = ''zone-signing'' then ''ZSK'' else ''KSK'')
                    else type s)"
proof (cases "is_description l")
  case True
  then have "describe_line s l = Inr s'" using assms by (simp add: process_line_description)
  from describe_line_Inr [OF this] show ?thesis using True by simp
next
  case False
  show ?thesis
  proof (cases "label_of l")
    case None
    then have "s' = s" using assms False by (simp add: process_line_alt)
    then show ?thesis using False by simp
  next
    case (Some lab)
    then have "set_date l (\<lambda>d. put_date lab d s) = Inr s'" using assms by (simp add: process_line_alt)
    from set_date_Inr [OF this] obtain d where "s' = put_date lab d s" by blast
    then have "type s' = type s" by (cases lab) simp_all
    then show ?thesis using False by simp
  qed
qed

lemma process_lines_type:
  "process_lines s ls = Inr s' \<Longrightarrow>
     (type s' = ''ZSK'' \<or> type s' = ''KSK'' \<or> type s' = type s)
     \<and> ((\<forall>l \<in> set ls. \<not> is_description l) \<longrightarrow> type s' = type s)"
proof (induction ls arbitrary: s)
  case Nil
  then show ?case by simp
next
  case (Cons x ls)
  from Cons.prems obtain s1 where 1: "process_line s x = Inr s1" and 2: "process_lines s1 ls = Inr s'"
    by (cases "process_line s x") simp_all
  note t = process_line_type [OF 1]
  note ih = Cons.IH [OF 2]
  have a: "type s1 = ''ZSK'' \<or> type s1 = ''KSK'' \<or> type s1 = type s" using t by presburger
  have b: "\<not> is_description x \<longrightarrow> type s1 = type s" using t by simp
  from ih a b show ?case by auto
qed

lemma process_lines_no_comment:
  "(\<forall>l \<in> set ls. \<not> startswith '';'' l) \<Longrightarrow> process_lines s ls = Inr s"
  by (induction ls) (simp_all add: process_line_not_comment)

text \<open>
  C7, as amended. The type of a constructed key is \<open>ZSK\<close>, \<open>KSK\<close> or empty, and it is
  empty when the file has no descriptive comment line; a file without comment lines is
  constructed as soon as its name is parsed. A descriptive comment line whose key-purpose
  word is neither \<open>zone-signing\<close> nor \<open>key-signing\<close> makes the construction fail.
\<close>

theorem key_type_values:
  "(KeyFile_init path = Inr self \<longrightarrow>
      (type self = ''ZSK'' \<or> type self = ''KSK'' \<or> type self = '''')
      \<and> ((\<forall>l \<in> set (f_lines path). \<not> is_description l) \<longrightarrow> type self = ''''))
   \<and> ((\<exists>l \<in> set (f_lines path). is_description l \<and> \<not> purpose_known l)
        \<longrightarrow> (\<exists>e. KeyFile_init path = Inl e))
   \<and> ((\<forall>l \<in> set (f_lines path). \<not> startswith '';'' l) \<longrightarrow> KeyFile_init path = init_fields path)"
proof -
  have 1: "(type self = ''ZSK'' \<or> type self = ''KSK'' \<or> type self = '''')
      \<and> ((\<forall>l \<in> set (f_lines path). \<not> is_description l) \<longrightarrow> type self = '''')"
    if a: "KeyFile_init path = Inr self"
  proof -
    from a obtain s0 where i: "init_fields path = Inr s0"
      and p: "process_lines s0 (f_lines path) = Inr self"
      unfolding KeyFile_init_def by (cases "init_fields path") simp_all
    have "type s0 = ''''" using init_fields_Inr [OF i] by simp
    then show ?thesis using process_lines_type [OF p] by simp
  qed
  have 2: "\<exists>e. KeyFile_init path = Inl e"
    if l: "l \<in> set (f_lines path)" "is_description l" "\<not> purpose_known l" for l
  proof (cases "init_fields path")
    case (Inl e)
    then show ?thesis by (simp add: KeyFile_init_def)
  next
    case (Inr s0)
    have "\<exists>e. process_line s l = Inl e" for s
      using describe_line_unknown [OF l(3)] process_line_description [OF l(2)] by simp
    from process_lines_fails [OF l(1) this] show ?thesis by (simp add: KeyFile_init_def Inr)
  qed
  have 3: "KeyFile_init path = init_fields path" if "\<forall>l \<in> set (f_lines path). \<not> startswith '';'' l"
    unfolding KeyFile_init_def
    by (cases "init_fields path") (simp_all add: process_lines_no_comment [OF that])
  from 1 2 3 show ?thesis by blast
qed

lemma KeyFile_init_split:
  assumes "init_fields path = Inr s0" "f_lines path = pre @ l # post" "process_lines s0 pre = Inr s1"
  shows "KeyFile_init path =
     (case process_line s1 l of Inl e \<Rightarrow> Inl e | Inr s2 \<Rightarrow> process_lines s2 post)"
  by (simp add: KeyFile_init_def assms process_lines_append)

lemma date_part_cases:
  assumes "2 < length (split l)"
  shows "date_part l =
     (if length (split l ! 2) \<noteq> 14
      then Inl (ValueError (''Unexpected date format: '' @ [CHR 0x27] @ l @ [CHR 0x27]))
      else strptime (split l ! 2))"
  using assms unfolding date_part_def Let_def by simp

lemma process_line_bad_date:
  assumes "label_of l \<noteq> None" "date_part l = Inl e"
  shows "process_line s l = Inl e"
proof -
  from assms(1) obtain lab where "label_of l = Some lab" by blast
  then show ?thesis using assms(2) by (simp add: process_line_alt set_date_def)
qed

lemma not_date_ok: "\<not> date_ok l \<Longrightarrow> \<exists>e. date_part l = Inl e"
  unfolding date_ok_def by (cases "date_part l") simp_all

text \<open>
  C9, as amended. Let \<open>ff\<close> be the fields of the file name's stem between \<open>+\<close> signs.
  The construction fails with \<open>IndexError\<close> when there is no second field, or no third
  field after a second one that is an integer, and with the \<open>ValueError\<close> of \<open>int()\<close>
  when the second field, or the third, is not an integer; fields after the third are not
  looked at, and neither is the first character. Every file with a comment line that
  carries a timestamp label and whose third word is missing, is not 14 characters long
  or is not a date in the layout \<open>YYYYMMDDHHMMSS\<close> fails to construct; when that line
  is the first that fails, the error is \<open>ValueError("Unexpected date format: '...'")\<close> for
  a third word of another length, and the \<open>ValueError\<close> of \<open>strptime\<close> for one of 14
  characters.
\<close>

theorem parse_failures:
  "(ff = split_on CHR ''+'' (stem (f_name path)) \<longrightarrow>
      (length ff < 2 \<longrightarrow> KeyFile_init path = Inl IndexError)
      \<and> (2 \<le> length ff \<and> py_int (ff ! 1) = Inl e \<longrightarrow> KeyFile_init path = Inl e)
      \<and> (length ff = 2 \<and> py_int (ff ! 1) = Inr a \<longrightarrow> KeyFile_init path = Inl IndexError)
      \<and> (3 \<le> length ff \<and> py_int (ff ! 1) = Inr a \<and> py_int (ff ! 2) = Inl e
           \<longrightarrow> KeyFile_init path = Inl e))
   \<and> ((\<exists>l \<in> set (f_lines path). label_of l \<noteq> None \<and> \<not> date_ok l)
        \<longrightarrow> (\<exists>e'. KeyFile_init path = Inl e'))
   \<and> (init_fields path = Inr s0 \<and> f_lines path = pre @ l # post \<and> process_lines s0 pre = Inr s1
        \<and> label_of l \<noteq> None \<and> 2 < length (split l) \<longrightarrow>
          (length (split l ! 2) \<noteq> 14 \<longrightarrow>
             KeyFile_init path
               = Inl (ValueError (''Unexpected date format: '' @ [CHR 0x27] @ l @ [CHR 0x27])))
          \<and> (length (split l ! 2) = 14 \<and> strptime (split l ! 2) = Inl e \<longrightarrow>
                KeyFile_init path = Inl e))"
proof -
  have 1: "(length ff < 2 \<longrightarrow> KeyFile_init path = Inl IndexError)
      \<and> (2 \<le> length ff \<and> py_int (ff ! 1) = Inl e \<longrightarrow> KeyFile_init path = Inl e)
      \<and> (length ff = 2 \<and> py_int (ff ! 1) = Inr a \<longrightarrow> KeyFile_init path = Inl IndexError)
      \<and> (3 \<le> length ff \<and> py_int (ff ! 1) = Inr a \<and> py_int (ff ! 2) = Inl e
           \<longrightarrow> KeyFile_init path = Inl e)"
    if "ff = split_on CHR ''+'' (stem (f_name path))"
    unfolding KeyFile_init_def init_fields_def Let_def that [symmetric]
    by (simp split: sum.splits)
  have 2: "\<exists>e'. KeyFile_init path = Inl e'"
    if l: "l \<in> set (f_lines path)" "label_of l \<noteq> None" "\<not> date_ok l" for l
  proof (cases "init_fields path")
    case (Inl e)
    then show ?thesis by (simp add: KeyFile_init_def)
  next
    case (Inr s0)
    from not_date_ok [OF l(3)] obtain e where "date_part l = Inl e" by blast
    then have "\<exists>e. process_line s l = Inl e" for s
      using process_line_bad_date [OF l(2)] by blast
    from process_lines_fails [OF l(1) this] show ?thesis by (simp add: KeyFile_init_def Inr)
  qed
  have 3: "(length (split l ! 2) \<noteq> 14 \<longrightarrow>
             KeyFile_init path
               = Inl (ValueError (''Unexpected date format: '' @ [CHR 0x27] @ l @ [CHR 0x27])))
          \<and> (length (split l ! 2) = 14 \<and> strptime (split l ! 2) = Inl e \<longrightarrow>
                KeyFile_init path = Inl e)"
    if h: "init_fields path = Inr s0" "f_lines path = pre @ l # post" "process_lines s0 pre = Inr s1"
      "label_of l \<noteq> None" "2 < length (split l)"
  proof -
    note k = KeyFile_init_split [OF h(1) h(2) h(3)]
    note d = date_part_cases [OF h(5)]
    have a: "KeyFile_init path = Inl x" if "date_part l = Inl x" for x
      unfolding k process_line_bad_date [OF h(4) that] by simp
    show ?thesis using a d by simp
  qed
  from 1 2 3 show ?thesis by blast
qed

text \<open>
  C3. Take a file whose name has been parsed and whose lines before the descriptive
  comment line raise nothing, the descriptive line having a known key purpose and, as its
  eighth word less its last character, an integer \<open>n\<close>. If \<open>n\<close> is not the key tag of the
  file name, the construction fails with
  \<open>ValueError("<name> claims to be for id <keyid>, but is not!")\<close>; if it is, and the last
  word of the line is not the zone of the file name, it fails with
  \<open>ValueError("<name> claims to be for id <zone>, but is not!")\<close>; if both agree, the line
  raises nothing, the construction goes on with the lines after it, and it succeeds when
  there are none.
\<close>

theorem identity_cross_check:
  "init_fields path = Inr s0 \<and> f_lines path = pre @ l # post \<and> process_lines s0 pre = Inr s1
   \<and> is_description l \<and> purpose_known l \<and> 7 < length (split l)
   \<and> py_int (butlast (split l ! 7)) = Inr n
   \<and> s2 = s1\<lparr>type := (if split l ! 4 = ''zone-signing'' then ''ZSK'' else ''KSK'')\<rparr>
   \<longrightarrow>
     (n \<noteq> keyid s0 \<longrightarrow>
        KeyFile_init path
          = Inl (ValueError (name s0 @ '' claims to be for id '' @ py_str (keyid s0) @ '', but is not!'')))
     \<and> (n = keyid s0 \<and> last (split l) \<noteq> zone s0 \<longrightarrow>
        KeyFile_init path
          = Inl (ValueError (name s0 @ '' claims to be for id '' @ zone s0 @ '', but is not!'')))
     \<and> (n = keyid s0 \<and> last (split l) = zone s0 \<longrightarrow>
          KeyFile_init path = process_lines s2 post
          \<and> (post = [] \<longrightarrow> KeyFile_init path = Inr s2))"
proof -
  have "(n \<noteq> keyid s0 \<longrightarrow>
        KeyFile_init path
          = Inl (ValueError (name s0 @ '' claims to be for id '' @ py_str (keyid s0) @ '', but is not!'')))
     \<and> (n = keyid s0 \<and> last (split l) \<noteq> zone s0 \<longrightarrow>
        KeyFile_init path
          = Inl (ValueError (name s0 @ '' claims to be for id '' @ zone s0 @ '', but is not!'')))
     \<and> (n = keyid s0 \<and> last (split l) = zone s0 \<longrightarrow>
          KeyFile_init path = process_lines s2 post
          \<and> (post = [] \<longrightarrow> KeyFile_init path = Inr s2))"
    if h: "init_fields path = Inr s0" "f_lines path = pre @ l # post" "process_lines s0 pre = Inr s1"
      "is_description l" "purpose_known l" "7 < length (split l)"
      "py_int (butlast (split l ! 7)) = Inr n"
      "s2 = s1\<lparr>type := (if split l ! 4 = ''zone-signing'' then ''ZSK'' else ''KSK'')\<rparr>"
  proof -
    note k = KeyFile_init_split [OF h(1) h(2) h(3)]
    from process_lines_identity [OF h(3)] have id: "keyid s1 = keyid s0" "zone s1 = zone s0"
      "name s1 = name s0" unfolding same_identity_def by simp_all
    have w: "\<not> length (split l) \<le> 4" "\<not> length (split l) \<le> 7"
      "\<not> (split l ! 4 \<noteq> ''zone-signing'' \<and> split l ! 4 \<noteq> ''key-signing'')"
      using h(5) h(6) unfolding purpose_known_def by auto
    have d: "process_line s1 l =
       (if keyid s0 \<noteq> n
        then Inl (ValueError (name s0 @ '' claims to be for id '' @ py_str (keyid s0) @ '', but is not!''))
        else if zone s0 \<noteq> last (split l)
        then Inl (ValueError (name s0 @ '' claims to be for id '' @ zone s0 @ '', but is not!''))
        else Inr s2)"
      unfolding process_line_description [OF h(4)] describe_line_def Let_def h(8)
      using w h(7) id by simp
    show ?thesis unfolding k d by auto
  qed
  then show ?thesis by blast
qed

section \<open>The example files\<close>

lemmas example_defs =
  example_path_def parsed_example_def unknown_purpose_path_def other_tag_path_def
  extra_field_path_def two_field_path_def short_date_path_def record_only_path_def dup_path_def
  dup_key_def

lemma KeyFile_init_example_path: "KeyFile_init example_path = Inr parsed_example"
  by (simp add: example_defs eval_defs)

lemma init_fields_example_path:
  "init_fields example_path
     = Inr (parsed_example\<lparr>type := '''', d_create := None, d_publish := None, d_active := None\<rparr>)"
  by (simp add: example_defs eval_defs)

text \<open>
  C7 as stated says that the construction succeeds, with an empty type, when the
  key-purpose word is not recognized. For the descriptive line
  \<open>; This is a foo-signing key, keyid 12345, for example.com.\<close> it raises
  \<open>ValueError("Unexpected key type word: 'foo-signing'")\<close>.
\<close>

theorem unknown_purpose_counterexample:
  "is_description (hd (f_lines unknown_purpose_path))
   \<and> \<not> purpose_known (hd (f_lines unknown_purpose_path))
   \<and> KeyFile_init unknown_purpose_path
       = Inl (ValueError (''Unexpected key type word: '' @ [CHR 0x27] @ ''foo-signing'' @ [CHR 0x27]))
   \<and> \<not> (\<exists>self. KeyFile_init unknown_purpose_path = Inr self \<and> type self = '''')"
  by (simp add: example_defs eval_defs is_description_def label_of_def purpose_known_def)

text \<open>
  C9 as stated says that every stem that does not split into exactly three fields fails.
  The stem \<open>Kexample.com.+008+12345+extra\<close> has four fields, and the key is constructed
  from the first three.
\<close>

theorem extra_field_counterexample:
  "split_on CHR ''+'' (stem (f_name extra_field_path)) = [''Kexample.com.'', ''008'', ''12345'', ''extra'']
   \<and> KeyFile_init extra_field_path
       = Inr (parsed_example\<lparr>path_rr := ''Kexample.com.+008+12345+extra.key'',
                path_pk := ''Kexample.com.+008+12345+extra.private'',
                name := ''Kexample.com.+008+12345+extra''\<rparr>)"
  by (simp add: example_defs eval_defs)

lemma digits_12345: "py_str 12345 = ''12345''"
  by (simp add: py_str_def digits_lt10 digits_ge10 digit_chr_def)

theorem key_type_values_witness:
  "KeyFile_init example_path = Inr parsed_example \<and> type parsed_example = ''ZSK''
   \<and> (\<exists>e. KeyFile_init unknown_purpose_path = Inl e)
   \<and> KeyFile_init record_only_path = init_fields record_only_path
   \<and> (\<exists>self. KeyFile_init record_only_path = Inr self \<and> type self = '''')"
proof -
  have 1: "KeyFile_init example_path = Inr parsed_example" by (rule KeyFile_init_example_path)
  have 2: "type parsed_example = ''ZSK''" by (simp add: parsed_example_def)
  have "\<exists>l \<in> set (f_lines unknown_purpose_path). is_description l \<and> \<not> purpose_known l"
    by (simp add: example_defs is_description_def label_of_def purpose_known_def split_def isspace_def)
  then have 3: "\<exists>e. KeyFile_init unknown_purpose_path = Inl e"
    using key_type_values [of unknown_purpose_path] by blast
  have "\<forall>l \<in> set (f_lines record_only_path). \<not> startswith '';'' l"
    by (simp add: example_defs)
  then have 4: "KeyFile_init record_only_path = init_fields record_only_path"
    using key_type_values [of record_only_path] by blast
  have "\<exists>self. init_fields record_only_path = Inr self \<and> type self = ''''"
    by (simp add: example_defs eval_defs)
  then have 5: "\<exists>self. KeyFile_init record_only_path = Inr self \<and> type self = ''''"
    unfolding 4 .
  from 1 2 3 4 5 show ?thesis by blast
qed

theorem parse_failures_witness:
  "KeyFile_init two_field_path = Inl IndexError
   \<and> KeyFile_init short_date_path
       = Inl (ValueError (''Unexpected date format: '' @ [CHR 0x27]
                @ ''; Created: 2023121512 (Fri Dec 15 12:00:00 2023)'' @ [CHR 0x27]))"
proof -
  have "split_on CHR ''+'' (stem (f_name two_field_path)) = [''Kexample.com.'', ''008'']"
    by (simp add: example_defs stem_def suffix_pos_def)
  moreover have "py_int ''008'' = Inr 8"
    by (simp add: py_int_digits isdigit_def digits_val_def digit_val_def max_str_digits_def)
  ultimately have 1: "KeyFile_init two_field_path = Inl IndexError"
    using parse_failures [of "[''Kexample.com.'', ''008'']" two_field_path _ 8] by simp
  have i: "init_fields short_date_path
     = Inr (parsed_example\<lparr>type := '''', d_create := None, d_publish := None, d_active := None\<rparr>)"
    by (simp add: example_defs eval_defs)
  have l: "f_lines short_date_path = [] @ ''; Created: 2023121512 (Fri Dec 15 12:00:00 2023)'' # []"
    by (simp add: example_defs)
  have w: "split ''; Created: 2023121512 (Fri Dec 15 12:00:00 2023)''
     = ['';'', ''Created:'', ''2023121512'', ''(Fri'', ''Dec'', ''15'', ''12:00:00'', ''2023)'']"
    by (simp add: split_def isspace_def)
  have lab: "label_of ''; Created: 2023121512 (Fri Dec 15 12:00:00 2023)'' \<noteq> None"
    by (simp add: label_of_def)
  have 2: "KeyFile_init short_date_path
       = Inl (ValueError (''Unexpected date format: '' @ [CHR 0x27]
                @ ''; Created: 2023121512 (Fri Dec 15 12:00:00 2023)'' @ [CHR 0x27]))"
    using parse_failures [where path = short_date_path and pre = "[]" and post = "[]"
        and l = "''; Created: 2023121512 (Fri Dec 15 12:00:00 2023)''"
        and ?s0.0 = "parsed_example\<lparr>type := '''', d_create := None, d_publish := None, d_active := None\<rparr>"
        and ?s1.0 = "parsed_example\<lparr>type := '''', d_create := None, d_publish := None, d_active := None\<rparr>"]
      i l lab
    unfolding w by simp
  from 1 2 show ?thesis by blast
qed

theorem identity_cross_check_witness:
  "KeyFile_init other_tag_path
     = Inl (ValueError ''Kexample.com.+008+12345 claims to be for id 12345, but is not!'')
   \<and> KeyFile_init example_path = Inr parsed_example"
proof -
  have i: "init_fields other_tag_path
     = Inr (parsed_example\<lparr>type := '''', d_create := None, d_publish := None, d_active := None\<rparr>)"
    by (simp add: example_defs eval_defs)
  have l: "f_lines other_tag_path
     = [] @ ''; This is a zone-signing key, keyid 54321, for example.com.'' # []"
    by (simp add: example_defs)
  have w: "split ''; This is a zone-signing key, keyid 54321, for example.com.''
     = ['';'', ''This'', ''is'', ''a'', ''zone-signing'', ''key,'', ''keyid'', ''54321,'', ''for'',
        ''example.com.'']"
    by (simp add: split_def isspace_def)
  have d: "is_description ''; This is a zone-signing key, keyid 54321, for example.com.''"
    by (simp add: is_description_def label_of_def)
  have p: "purpose_known ''; This is a zone-signing key, keyid 54321, for example.com.''"
    unfolding purpose_known_def w by simp
  have n: "py_int ''54321'' = Inr 54321"
    by (simp add: py_int_digits isdigit_def digits_val_def digit_val_def max_str_digits_def)
  have 1: "KeyFile_init other_tag_path
     = Inl (ValueError ''Kexample.com.+008+12345 claims to be for id 12345, but is not!'')"
    using identity_cross_check [where path = other_tag_path and pre = "[]" and post = "[]"
        and l = "''; This is a zone-signing key, keyid 54321, for example.com.''"
        and n = 54321
        and ?s0.0 = "parsed_example\<lparr>type := '''', d_create := None, d_publish := None, d_active := None\<rparr>"
        and ?s1.0 = "parsed_example\<lparr>type := '''', d_create := None, d_publish := None, d_active := None\<rparr>"]
      i l d p n
    unfolding w by (simp add: parsed_example_def digits_12345)
  from 1 KeyFile_init_example_path show ?thesis by blast
qed

theorem filename_roundtrip_witness:
  "KeyFile_init example_path = Inr parsed_example
   \<and> zone parsed_example = ''example.com.'' \<and> algo parsed_example = 8 \<and> keyid parsed_example = 12345
   \<and> ''K'' @ KeyFile_str parsed_example @ ''.key'' = f_name example_path"
proof -
  have z: "CHR ''+'' \<notin> set ''example.com.''" by simp
  have a: "list_all isdigit ''008''" "length ''008'' = 3" by (simp_all add: isdigit_def)
  have k: "list_all isdigit ''12345''" "length ''12345'' = 5" by (simp_all add: isdigit_def)
  have n: "f_name example_path = ''K'' @ ''example.com.'' @ ''+'' @ ''008'' @ ''+'' @ ''12345'' @ ''.key''"
    by (simp add: example_path_def)
  have v: "int (digits_val ''008'') = 8" "int (digits_val ''12345'') = 12345"
    by (simp_all add: digits_val_def digit_val_def)
  note r = filename_roundtrip [OF z a k n, unfolded v]
  then have "zone parsed_example = ''example.com.'' \<and> algo parsed_example = 8
      \<and> keyid parsed_example = 12345
      \<and> ''K'' @ KeyFile_str parsed_example @ ''.key'' = f_name example_path"
    using KeyFile_init_example_path by blast
  then show ?thesis using KeyFile_init_example_path by blast
qed

theorem last_label_line_wins_witness:
  "KeyFile_init dup_path = Inr dup_key
   \<and> get_date Publish dup_key = Some (2024, 3, 1, 0, 0, 0, 0)
   \<and> last_date Publish (f_lines dup_path) = Some (2024, 3, 1, 0, 0, 0, 0)
   \<and> (\<exists>s. KeyFile_init dup_path = Inr s)"
proof -
  have 1: "KeyFile_init dup_path = Inr dup_key" by (rule KeyFile_init_dup_path)
  have 2: "get_date Publish dup_key = Some (2024, 3, 1, 0, 0, 0, 0)" by (simp add: dup_key_def)
  note t = last_label_line_wins [of dup_path dup_key Publish
      "dup_key\<lparr>d_create := None, d_publish := None\<rparr>"]
  from t 1 have "get_date Publish dup_key = last_date Publish (f_lines dup_path)" by blast
  then have 3: "last_date Publish (f_lines dup_path) = Some (2024, 3, 1, 0, 0, 0, 0)"
    unfolding 2 by (rule sym)
  have i: "init_fields dup_path = Inr (dup_key\<lparr>d_create := None, d_publish := None\<rparr>)"
    by (simp add: example_defs eval_defs)
  have l: "\<forall>l \<in> set (f_lines dup_path). \<not> is_description l \<and> (label_of l \<noteq> None \<longrightarrow> date_ok l)"
    by (simp add: dup_path_def is_description_def label_of_def date_ok_def date_part_def split_def
        isspace_def strptime_def isdigit_def digits_val_def digit_val_def days_in_month_def
        is_leap_def)
  from t i l have 4: "\<exists>s. KeyFile_init dup_path = Inr s" by blast
  from 1 2 3 4 show ?thesis by blast
qed

section \<open>Patterns of file names and the listing of keys\<close>

lemma glob_tokens_append: "glob_tokens (p @ q) = glob_tokens p @ glob_tokens q"
  by (induction p) simp_all

lemma glob_match_Star_any: "glob_match [Star] s"
  by (induction s) simp_all

lemma glob_match_Star_skip: "glob_match (Star # ts) s2 \<Longrightarrow> glob_match (Star # ts) (s1 @ s2)"
  by (induction s1) simp_all

lemma glob_match_Star_intro: "glob_match ts s \<Longrightarrow> glob_match (Star # ts) s"
  by (cases s) simp_all

lemma glob_match_append:
  "glob_match (ts @ us) s \<longleftrightarrow> (\<exists>s1 s2. s = s1 @ s2 \<and> glob_match ts s1 \<and> glob_match us s2)"
proof (induction ts s rule: glob_match.induct)
  case (1 s)
  then show ?case by simp
next
  case (2 ts)
  then show ?case by simp
next
  case (3 ts c cs)
  have "glob_match ((Star # ts) @ us) (c # cs)
      \<longleftrightarrow> glob_match (ts @ us) (c # cs) \<or> glob_match ((Star # ts) @ us) cs" by simp
  also have "\<dots> \<longleftrightarrow> (\<exists>s1 s2. c # cs = s1 @ s2 \<and> glob_match ts s1 \<and> glob_match us s2)
      \<or> (\<exists>s1 s2. cs = s1 @ s2 \<and> glob_match (Star # ts) s1 \<and> glob_match us s2)"
    using 3 by simp
  also have "\<dots> \<longleftrightarrow> (\<exists>s1 s2. c # cs = s1 @ s2 \<and> glob_match (Star # ts) s1 \<and> glob_match us s2)"
  proof
    assume "(\<exists>s1 s2. c # cs = s1 @ s2 \<and> glob_match ts s1 \<and> glob_match us s2)
      \<or> (\<exists>s1 s2. cs = s1 @ s2 \<and> glob_match (Star # ts) s1 \<and> glob_match us s2)"
    then show "\<exists>s1 s2. c # cs = s1 @ s2 \<and> glob_match (Star # ts) s1 \<and> glob_match us s2"
    proof
      assume "\<exists>s1 s2. c # cs = s1 @ s2 \<and> glob_match ts s1 \<and> glob_match us s2"
      then show ?thesis using glob_match_Star_intro by blast
    next
      assume "\<exists>s1 s2. cs = s1 @ s2 \<and> glob_match (Star # ts) s1 \<and> glob_match us s2"
      then obtain s1 s2 where "cs = s1 @ s2" "glob_match (Star # ts) s1" "glob_match us s2" by blast
      then have "c # cs = (c # s1) @ s2 \<and> glob_match (Star # ts) (c # s1) \<and> glob_match us s2"
        by simp
      then show ?thesis by blast
    qed
  next
    assume "\<exists>s1 s2. c # cs = s1 @ s2 \<and> glob_match (Star # ts) s1 \<and> glob_match us s2"
    then obtain s1 s2 where h: "c # cs = s1 @ s2" "glob_match (Star # ts) s1" "glob_match us s2"
      by blast
    show "(\<exists>s1 s2. c # cs = s1 @ s2 \<and> glob_match ts s1 \<and> glob_match us s2)
      \<or> (\<exists>s1 s2. cs = s1 @ s2 \<and> glob_match (Star # ts) s1 \<and> glob_match us s2)"
    proof (cases s1)
      case Nil
      then have "glob_match ts []" using h(2) by simp
      then show ?thesis using h Nil by blast
    next
      case (Cons d r)
      then have e: "d = c" "cs = r @ s2" using h(1) by simp_all
      have "glob_match ts (c # r) \<or> glob_match (Star # ts) r" using h(2) Cons e by simp
      then show ?thesis
      proof
        assume "glob_match ts (c # r)"
        then have "c # cs = (c # r) @ s2 \<and> glob_match ts (c # r) \<and> glob_match us s2"
          using e h(3) by simp
        then show ?thesis by blast
      next
        assume "glob_match (Star # ts) r"
        then show ?thesis using e h(3) by blast
      qed
    qed
  qed
  finally show ?case .
next
  case (4 ts)
  then show ?case by simp
next
  case (5 ts c cs)
  have "glob_match ((AnyChar # ts) @ us) (c # cs) \<longleftrightarrow> glob_match (ts @ us) cs" by simp
  also have "\<dots> \<longleftrightarrow> (\<exists>s1 s2. cs = s1 @ s2 \<and> glob_match ts s1 \<and> glob_match us s2)" using 5 by simp
  also have "\<dots> \<longleftrightarrow> (\<exists>s1 s2. c # cs = s1 @ s2 \<and> glob_match (AnyChar # ts) s1 \<and> glob_match us s2)"
  proof
    assume "\<exists>s1 s2. cs = s1 @ s2 \<and> glob_match ts s1 \<and> glob_match us s2"
    then obtain s1 s2 where "cs = s1 @ s2" "glob_match ts s1" "glob_match us s2" by blast
    then have "c # cs = (c # s1) @ s2 \<and> glob_match (AnyChar # ts) (c # s1) \<and> glob_match us s2"
      by simp
    then show "\<exists>s1 s2. c # cs = s1 @ s2 \<and> glob_match (AnyChar # ts) s1 \<and> glob_match us s2" by blast
  next
    assume "\<exists>s1 s2. c # cs = s1 @ s2 \<and> glob_match (AnyChar # ts) s1 \<and> glob_match us s2"
    then obtain s1 s2 where h: "c # cs = s1 @ s2" "glob_match (AnyChar # ts) s1" "glob_match us s2"
      by blast
    then obtain d r where s1: "s1 = d # r" by (cases s1) simp_all
    then have "cs = r @ s2" "glob_match ts r" using h by simp_all
    then show "\<exists>s1 s2. cs = s1 @ s2 \<and> glob_match ts s1 \<and> glob_match us s2" using h(3) by blast
  qed
  finally show ?case .
next
  case (6 a ts)
  then show ?case by simp
next
  case (7 a ts c cs)
  have "glob_match ((Lit a # ts) @ us) (c # cs) \<longleftrightarrow> a = c \<and> glob_match (ts @ us) cs" by simp
  also have "\<dots> \<longleftrightarrow> a = c \<and> (\<exists>s1 s2. cs = s1 @ s2 \<and> glob_match ts s1 \<and> glob_match us s2)"
    using 7 by simp
  also have "\<dots> \<longleftrightarrow> (\<exists>s1 s2. c # cs = s1 @ s2 \<and> glob_match (Lit a # ts) s1 \<and> glob_match us s2)"
  proof
    assume "a = c \<and> (\<exists>s1 s2. cs = s1 @ s2 \<and> glob_match ts s1 \<and> glob_match us s2)"
    then obtain s1 s2 where "a = c" "cs = s1 @ s2" "glob_match ts s1" "glob_match us s2" by blast
    then have "c # cs = (c # s1) @ s2 \<and> glob_match (Lit a # ts) (c # s1) \<and> glob_match us s2"
      by simp
    then show "\<exists>s1 s2. c # cs = s1 @ s2 \<and> glob_match (Lit a # ts) s1 \<and> glob_match us s2" by blast
  next
    assume "\<exists>s1 s2. c # cs = s1 @ s2 \<and> glob_match (Lit a # ts) s1 \<and> glob_match us s2"
    then obtain s1 s2 where h: "c # cs = s1 @ s2" "glob_match (Lit a # ts) s1" "glob_match us s2"
      by blast
    then obtain d r where s1: "s1 = d # r" by (cases s1) simp_all
    then have "a = c" "cs = r @ s2" "glob_match ts r" using h by simp_all
    then show "a = c \<and> (\<exists>s1 s2. cs = s1 @ s2 \<and> glob_match ts s1 \<and> glob_match us s2)"
      using h(3) by blast
  qed
  finally show ?case .
qed

lemma glob_match_Star:
  "glob_match (Star # ts) s \<longleftrightarrow> (\<exists>s1 s2. s = s1 @ s2 \<and> glob_match ts s2)"
  using glob_match_append [of "[Star]" ts s] by (simp add: glob_match_Star_any)

lemma glob_match_Lits:
  "glob_match (map Lit p @ ts) s \<longleftrightarrow> (\<exists>s2. s = p @ s2 \<and> glob_match ts s2)"
proof (induction p arbitrary: s)
  case Nil
  then show ?case by simp
next
  case (Cons a p)
  show ?case
  proof (cases s)
    case Nil
    then show ?thesis by simp
  next
    case (Cons c cs)
    then show ?thesis using Cons.IH [of cs] by auto
  qed
qed

lemma glob_tokens_plain:
  "CHR ''*'' \<notin> set p \<Longrightarrow> CHR ''?'' \<notin> set p \<Longrightarrow> glob_tokens p = map Lit p"
  by (induction p) auto

lemma recursive_tokens:
  "glob_tokens (''K'' @ (''*.'' @ z) @ ''+*+*.key'')
     = Lit CHR ''K'' # Star # Lit CHR ''.'' # glob_tokens z
       @ [Lit CHR ''+'', Star, Lit CHR ''+'', Star, Lit CHR ''.'', Lit CHR ''k'', Lit CHR ''e'',
          Lit CHR ''y'']"
  by (simp add: glob_tokens_append)

lemma plain_tokens:
  "glob_tokens (''K'' @ (s @ ''.'' @ z) @ ''+*+*.key'')
     = Lit CHR ''K'' # glob_tokens s @ Lit CHR ''.'' # glob_tokens z
       @ [Lit CHR ''+'', Star, Lit CHR ''+'', Star, Lit CHR ''.'', Lit CHR ''k'', Lit CHR ''e'',
          Lit CHR ''y'']"
  by (simp add: glob_tokens_append)

lemma subdomain_pattern_included:
  assumes "fnmatch n (''K'' @ (s @ ''.'' @ z) @ ''+*+*.key'')"
  shows "fnmatch n (''K'' @ (''*.'' @ z) @ ''+*+*.key'')"
proof -
  let ?rest = "Lit CHR ''.'' # glob_tokens z
       @ [Lit CHR ''+'', Star, Lit CHR ''+'', Star, Lit CHR ''.'', Lit CHR ''k'', Lit CHR ''e'',
          Lit CHR ''y'']"
  from assms have m: "glob_match (Lit CHR ''K'' # glob_tokens s @ ?rest) n"
    unfolding fnmatch_def plain_tokens by simp
  then obtain n' where n: "n = CHR ''K'' # n'" and m': "glob_match (glob_tokens s @ ?rest) n'"
    by (cases n) simp_all
  from m' obtain s1 s2 where "n' = s1 @ s2" "glob_match ?rest s2"
    unfolding glob_match_append by blast
  then have "glob_match (Star # ?rest) n'" unfolding glob_match_Star by blast
  then show ?thesis unfolding fnmatch_def recursive_tokens n by simp
qed

lemma recursive_pattern_names:
  assumes "CHR ''*'' \<notin> set z" "CHR ''?'' \<notin> set z"
  shows "fnmatch n (''K'' @ (''*.'' @ z) @ ''+*+*.key'')
     \<longleftrightarrow> (\<exists>s a b. n = ''K'' @ s @ ''.'' @ z @ ''+'' @ a @ ''+'' @ b @ ''.key'')"
proof -
  have t: "glob_tokens (''K'' @ (''*.'' @ z) @ ''+*+*.key'')
     = map Lit ''K'' @ Star # map Lit (''.'' @ z @ ''+'') @ Star # map Lit ''+'' @ Star
        # map Lit ''.key'' @ []"
    unfolding recursive_tokens glob_tokens_plain [OF assms] by simp
  have e: "glob_match (map Lit ''.key'' @ []) x \<longleftrightarrow> x = ''.key''" for x
    unfolding glob_match_Lits by auto
  have d: "glob_match (Star # map Lit ''.key'' @ []) x \<longleftrightarrow> (\<exists>b. x = b @ ''.key'')" for x
    unfolding glob_match_Star e by blast
  have c: "glob_match (map Lit ''+'' @ Star # map Lit ''.key'' @ []) x
      \<longleftrightarrow> (\<exists>b. x = ''+'' @ b @ ''.key'')" for x
    unfolding glob_match_Lits d by blast
  have b: "glob_match (Star # map Lit ''+'' @ Star # map Lit ''.key'' @ []) x
      \<longleftrightarrow> (\<exists>a b. x = a @ ''+'' @ b @ ''.key'')" for x
    unfolding glob_match_Star c by blast
  have a: "glob_match (map Lit (''.'' @ z @ ''+'') @ Star # map Lit ''+'' @ Star # map Lit ''.key'' @ []) x
      \<longleftrightarrow> (\<exists>a b. x = (''.'' @ z @ ''+'') @ a @ ''+'' @ b @ ''.key'')" for x
    unfolding glob_match_Lits b by blast
  have s: "glob_match (Star # map Lit (''.'' @ z @ ''+'') @ Star # map Lit ''+'' @ Star
        # map Lit ''.key'' @ []) x
      \<longleftrightarrow> (\<exists>s a b. x = s @ (''.'' @ z @ ''+'') @ a @ ''+'' @ b @ ''.key'')" for x
    unfolding glob_match_Star a by blast
  have k: "glob_match (map Lit ''K'' @ Star # map Lit (''.'' @ z @ ''+'') @ Star # map Lit ''+'' @ Star
        # map Lit ''.key'' @ []) x
      \<longleftrightarrow> (\<exists>s a b. x = ''K'' @ s @ (''.'' @ z @ ''+'') @ a @ ''+'' @ b @ ''.key'')" for x
    unfolding glob_match_Lits s by blast
  show ?thesis unfolding fnmatch_def t k by simp
qed

lemma iter_keyfiles_mono:
  assumes "\<And>n. fnmatch n (''K'' @ z1 @ ''+*+*.key'') \<Longrightarrow> fnmatch n (''K'' @ z2 @ ''+*+*.key'')"
  shows "set (iter_keyfiles d z1) \<subseteq> set (iter_keyfiles d z2)"
  unfolding iter_keyfiles_def glob_def using assms by auto

text \<open>
  C6, as amended. With \<open>recursive\<close>, \<open>list_keys\<close> globs the pattern
  \<open>K*.<zone>+*+*.key\<close>, the zone without its leading dots. For a zone and a prefix \<open>s\<close>
  without \<open>[\<close>, every file name that the non-recursive pattern of the subdomain
  \<open>s.<zone>\<close> matches is matched by it, and the generator yields for the recursive
  listing what it yields for the subdomain. When the zone has no \<open>*\<close> or \<open>?\<close> either, the
  names it matches are exactly those of the form \<open>K<s>.<zone>+<a>+<b>.key\<close>: a dot
  stands before the zone, so the key files of the zone itself are not among them in
  general.
\<close>

theorem recursive_pattern_subdomains:
  "CHR ''['' \<notin> set s \<union> set z \<longrightarrow>
     (fnmatch n (''K'' @ (s @ ''.'' @ lstrip_dots z) @ ''+*+*.key'')
        \<longrightarrow> fnmatch n (''K'' @ (''*.'' @ lstrip_dots z) @ ''+*+*.key''))
     \<and> set (iter_keyfiles d (s @ ''.'' @ lstrip_dots z)) \<subseteq> set (iter_keyfiles d (''*.'' @ lstrip_dots z))
     \<and> (CHR ''*'' \<notin> set z \<and> CHR ''?'' \<notin> set z \<longrightarrow>
          (fnmatch n (''K'' @ (''*.'' @ lstrip_dots z) @ ''+*+*.key'')
             \<longleftrightarrow> (\<exists>s' a b. n = ''K'' @ s' @ ''.'' @ lstrip_dots z @ ''+'' @ a @ ''+'' @ b @ ''.key'')))"
proof -
  have 1: "fnmatch n (''K'' @ (s @ ''.'' @ lstrip_dots z) @ ''+*+*.key'')
        \<longrightarrow> fnmatch n (''K'' @ (''*.'' @ lstrip_dots z) @ ''+*+*.key'')"
    using subdomain_pattern_included by blast
  have 2: "set (iter_keyfiles d (s @ ''.'' @ lstrip_dots z))
      \<subseteq> set (iter_keyfiles d (''*.'' @ lstrip_dots z))"
    by (rule iter_keyfiles_mono) (rule subdomain_pattern_included)
  have "set (lstrip_dots z) \<subseteq> set z" unfolding lstrip_dots_def by (rule set_dropWhileD [THEN subsetI])
  then have 3: "fnmatch n (''K'' @ (''*.'' @ lstrip_dots z) @ ''+*+*.key'')
             \<longleftrightarrow> (\<exists>s' a b. n = ''K'' @ s' @ ''.'' @ lstrip_dots z @ ''+'' @ a @ ''+'' @ b @ ''.key'')"
    if "CHR ''*'' \<notin> set z" "CHR ''?'' \<notin> set z"
    using that by (intro recursive_pattern_names) blast+
  from 1 2 3 show ?thesis by blast
qed

theorem recursive_pattern_subdomains_witness:
  "fnmatch ''Kwww.example.com.+008+12345.key'' (''K'' @ (''*.'' @ lstrip_dots ''example.com.'') @ ''+*+*.key'')
   \<and> fnmatch ''Ka.b.example.com.+013+00042.key'' (''K'' @ (''*.'' @ lstrip_dots ''.example.com.'') @ ''+*+*.key'')"
proof -
  have l: "lstrip_dots ''example.com.'' = ''example.com.''" "lstrip_dots ''.example.com.'' = ''example.com.''"
    by (simp_all add: lstrip_dots_def)
  have a: "fnmatch ''Kwww.example.com.+008+12345.key'' (''K'' @ (''www'' @ ''.'' @ lstrip_dots ''example.com.'') @ ''+*+*.key'')"
    unfolding l by (simp add: fnmatch_def)
  have b: "fnmatch ''Ka.b.example.com.+013+00042.key'' (''K'' @ (''a.b'' @ ''.'' @ lstrip_dots ''.example.com.'') @ ''+*+*.key'')"
    unfolding l by (simp add: fnmatch_def)
  have 1: "fnmatch ''Kwww.example.com.+008+12345.key'' (''K'' @ (''*.'' @ lstrip_dots ''example.com.'') @ ''+*+*.key'')"
    using recursive_pattern_subdomains [of "''www''" "''example.com.''" "''Kwww.example.com.+008+12345.key''"] a
    by simp
  have 2: "fnmatch ''Ka.b.example.com.+013+00042.key'' (''K'' @ (''*.'' @ lstrip_dots ''.example.com.'') @ ''+*+*.key'')"
    using recursive_pattern_subdomains [of "''a.b''" "''.example.com.''" "''Ka.b.example.com.+013+00042.key''"] b
    by simp
  from 1 2 show ?thesis by blast
qed

lemma sort_key_single: "sort_key f [x] = [x]"
  by simp

text \<open>
  C6 as stated says that every file name matched by the non-recursive pattern of a zone
  is matched by the recursive one. The name \<open>Kexample.com.+008+12345.key\<close> matches
  \<open>Kexample.com.+*+*.key\<close> and not \<open>K*.example.com.+*+*.key\<close>: in a directory that holds
  this key and its private file, the listing of \<open>example.com.\<close> returns the key, and the
  recursive listing returns nothing.
\<close>

theorem recursive_pattern_counterexample:
  "fnmatch ''Kexample.com.+008+12345.key'' (''K'' @ ''example.com.'' @ ''+*+*.key'')
   \<and> \<not> fnmatch ''Kexample.com.+008+12345.key'' (''K'' @ (''*.'' @ lstrip_dots ''example.com.'') @ ''+*+*.key'')
   \<and> list_keys example_dir ''example.com.'' False = ([], Inr [parsed_example])
   \<and> list_keys example_dir ''example.com.'' True = ([], Inr [])"
proof -
  have l: "lstrip_dots ''example.com.'' = ''example.com.''" by (simp add: lstrip_dots_def)
  have 1: "fnmatch ''Kexample.com.+008+12345.key'' (''K'' @ ''example.com.'' @ ''+*+*.key'')"
    by (simp add: fnmatch_def)
  have 2: "\<not> fnmatch ''Kexample.com.+008+12345.key'' (''K'' @ (''*.'' @ lstrip_dots ''example.com.'') @ ''+*+*.key'')"
    unfolding l by (simp add: fnmatch_def)
  have p: "\<not> fnmatch ''Kexample.com.+008+12345.private'' (''K'' @ ''example.com.'' @ ''+*+*.key'')"
      "\<not> fnmatch ''Kexample.com.+008+12345.private'' (''K'' @ (''*.'' @ ''example.com.'') @ ''+*+*.key'')"
    by (simp_all add: fnmatch_def)
  have n: "f_name example_path = ''Kexample.com.+008+12345.key''"
    "f_name example_private = ''Kexample.com.+008+12345.private''"
    by (simp_all add: example_path_def example_private_def)
  have g1: "glob example_dir ''Kexample.com.+*+*.key'' = [example_path]"
    unfolding glob_def example_dir_def using 1 p(1) by (simp add: n)
  have g2: "glob example_dir ''K*.example.com.+*+*.key'' = []"
    unfolding glob_def example_dir_def using 2 p(2) by (simp add: n l)
  have e: "path_exists example_dir (with_suffix (f_name example_path) ''.private'')"
    unfolding path_exists_def example_dir_def n by (simp add: with_suffix_def stem_def suffix_pos_def n)
  have 3: "list_keys example_dir ''example.com.'' False = ([], Inr [parsed_example])"
    unfolding list_keys_def iter_keyfiles_def Let_def
    by (simp add: g1 e KeyFile_init_example_path)
  have 4: "list_keys example_dir ''example.com.'' True = ([], Inr [])"
    unfolding list_keys_def iter_keyfiles_def Let_def
    by (simp add: g2 l)
  from 1 2 3 4 show ?thesis by blast
qed

section \<open>The call of an external tool\<close>

text \<open>
  C8. \<open>_call\<close> starts the program with \<open>stdout=subprocess.PIPE\<close> only, so the \<open>stderr\<close>
  of the \<open>CompletedProcess\<close> is \<open>None\<close>. When the program exits with a code other than
  zero, the message of the \<open>OSError\<close> is \<open>Error executing process: <code>\<close>, a line break
  and \<open>None\<close>, whatever the program wrote to its standard error.
\<close>

theorem call_loses_stderr:
  "p_exit (run args) \<noteq> 0 \<longrightarrow>
     call run args = Inl (OSError (''Error executing process: '' @ py_str (p_exit (run args))
                            @ [CHR 0x0A] @ ''None''))"
  by (simp add: call_def subprocess_run_def py_str_opt_def)

theorem call_loses_stderr_witness:
  "call failing_tool [''dnssec-settime'', ''-P'', ''20240101000000'', ''Kexample.com.+008+12345'']
     = Inl (OSError (''Error executing process: 1'' @ [CHR 0x0A] @ ''None''))
   \<and> p_err (failing_tool [''dnssec-settime'', ''-P'', ''20240101000000'', ''Kexample.com.+008+12345''])
     = ''dnssec-settime: fatal: Invalid keyfile name Kexample.com.+008+12345: file not found''"
  using call_loses_stderr [of failing_tool "[''dnssec-settime'', ''-P'', ''20240101000000'', ''Kexample.com.+008+12345'']"]
  by (simp add: failing_tool_def py_str_def digits_lt10 digit_chr_def)

section \<open>The order of the listing\<close>

lemma digits_val_digits: "digits_val (digits n) = n"
proof (induction n rule: digits.induct)
  case (1 n)
  show ?case
  proof (cases "n < 10")
    case True
    then show ?thesis by (simp add: digits_lt10 digits_val_def digit_val_chr)
  next
    case False
    then have ge: "10 \<le> n" by simp
    have "n mod 10 < 10" by simp
    then have "digit_val (digit_chr (n mod 10)) = n mod 10" by (rule digit_val_chr)
    then show ?thesis using "1.IH" [OF False] ge by (simp add: digits_ge10 digits_val_snoc)
  qed
qed

lemma isdigit_digits: "list_all isdigit (digits n)"
proof (induction n rule: digits.induct)
  case (1 n)
  show ?case
  proof (cases "n < 10")
    case True
    then show ?thesis by (simp add: digits_lt10 isdigit_chr)
  next
    case False
    then show ?thesis using "1.IH" [OF False] by (simp add: digits_ge10 isdigit_chr)
  qed
qed

lemma digits_not_Nil: "digits n \<noteq> []"
  using length_digits_pos [of n] by auto

lemma length_digits_mono: "n \<le> m \<Longrightarrow> length (digits n) \<le> length (digits m)"
proof -
  assume "n \<le> m"
  moreover have "m < 10 ^ length (digits m)" using digits_val_lt [of "digits m"] by (simp add: digits_val_digits)
  ultimately have "n < 10 ^ length (digits m)" by simp
  then show ?thesis using length_digits_pos by (rule length_digits_le)
qed

lemma digits_val_Cons: "digits_val (c # s) = digit_val c * 10 ^ length s + digits_val s"
proof (induction s arbitrary: c rule: rev_induct)
  case Nil
  then show ?case by (simp add: digits_val_def)
next
  case (snoc x xs)
  have "digits_val (c # xs @ [x]) = 10 * digits_val (c # xs) + digit_val x"
    using digits_val_snoc [of "c # xs" x] by simp
  then show ?case using snoc [of c] by (simp add: digits_val_snoc algebra_simps)
qed

lemma digit_val_less: "isdigit c \<Longrightarrow> isdigit d \<Longrightarrow> (c < d) = (digit_val c < digit_val d)"
  unfolding isdigit_cases by (elim disjE) (simp_all add: digit_val_def)

lemma digit_val_eq: "isdigit c \<Longrightarrow> isdigit d \<Longrightarrow> (c = d) = (digit_val c = digit_val d)"
  unfolding isdigit_cases by (elim disjE) (simp_all add: digit_val_def)

lemma positional_less:
  fixes a b x y p :: nat
  assumes "x < p" "y < p"
  shows "(a * p + x < b * p + y) = (a < b \<or> (a = b \<and> x < y))"
proof (cases "a < b")
  case True
  then have "Suc a \<le> b" by simp
  then have "Suc a * p \<le> b * p" by (rule mult_le_mono1)
  then have "a * p + x < b * p + y" using assms by simp
  then show ?thesis using True by simp
next
  case False
  show ?thesis
  proof (cases "a = b")
    case True
    then show ?thesis by simp
  next
    case ne: False
    then have "b < a" using False by simp
    then have "Suc b \<le> a" by simp
    then have "Suc b * p \<le> a * p" by (rule mult_le_mono1)
    then have "\<not> a * p + x < b * p + y" using assms by simp
    then show ?thesis using False ne by simp
  qed
qed

lemma positional_eq:
  fixes a b x y p :: nat
  assumes "x < p" "y < p"
  shows "(a * p + x = b * p + y) = (a = b \<and> x = y)"
proof -
  have 1: "\<not> (a * p + x < b * p + y) \<and> \<not> (b * p + y < a * p + x) \<longleftrightarrow> a = b \<and> x = y"
    unfolding positional_less [OF assms] positional_less [OF assms(2) assms(1)] by auto
  have "(a * p + x = b * p + y) \<longleftrightarrow> \<not> (a * p + x < b * p + y) \<and> \<not> (b * p + y < a * p + x)"
    using nat_neq_iff [of "a * p + x" "b * p + y"] by blast
  then show ?thesis using 1 by simp
qed

lemma digit_strings_less:
  "length s = length t \<Longrightarrow> list_all isdigit s \<Longrightarrow> list_all isdigit t \<Longrightarrow>
     (s < t) = (digits_val s < digits_val t) \<and> (s = t) = (digits_val s = digits_val t)"
proof (induction s t rule: list_induct2)
  case Nil
  then show ?case by (simp add: digits_val_def)
next
  case (Cons c s d t)
  then have ih: "(s < t) = (digits_val s < digits_val t)" "(s = t) = (digits_val s = digits_val t)"
    and dg: "isdigit c" "isdigit d" by simp_all
  define p :: nat where "p = 10 ^ length s"
  have b: "digits_val s < p" "digits_val t < p"
    using digits_val_lt [of s] digits_val_lt [of t] Cons.hyps unfolding p_def by simp_all
  have v: "digits_val (c # s) = digit_val c * p + digits_val s"
    "digits_val (d # t) = digit_val d * p + digits_val t"
    unfolding digits_val_Cons p_def Cons.hyps by simp_all
  have 1: "(c # s < d # t) = (digits_val (c # s) < digits_val (d # t))"
    unfolding v positional_less [OF b] Cons_less_Cons ih digit_val_less [OF dg] digit_val_eq [OF dg]
    by (rule refl)
  have 2: "(c # s = d # t) = (digits_val (c # s) = digits_val (d # t))"
    unfolding v positional_eq [OF b] list.inject ih digit_val_eq [OF dg]
    by (rule refl)
  from 1 2 show ?case by blast
qed

lemma digits_less:
  "length (digits n) = length (digits m) \<Longrightarrow> (digits n < digits m) = (n < m)"
  using digit_strings_less [of "digits n" "digits m"] by (simp add: isdigit_digits digits_val_digits)

lemma append_same_less: "(xs @ ys < xs @ zs) = (ys < (zs :: 'a :: linorder list))"
  by (induction xs) simp_all

lemma lex_same_length:
  "length x = length y \<Longrightarrow> (x @ r < y @ s) = (x < y \<or> x = y \<and> r < (s :: 'a :: linorder list))"
  by (induction x y rule: list_induct2) auto

lemma lex_sep:
  fixes sep :: "'a :: linorder"
  assumes "\<forall>c \<in> set z1. sep < c" "\<forall>c \<in> set z2. sep < c"
  shows "(z1 @ sep # r1 < z2 @ sep # r2) = (z1 < z2 \<or> z1 = z2 \<and> r1 < r2)"
  using assms
proof (induction z1 arbitrary: z2)
  case Nil
  then show ?case by (cases z2) auto
next
  case (Cons c s)
  show ?case
  proof (cases z2)
    case Nil
    have "sep < c" using Cons.prems by simp
    then show ?thesis using Nil by auto
  next
    case z2: (Cons d t)
    have "(s @ sep # r1 < t @ sep # r2) = (s < t \<or> s = t \<and> r1 < r2)"
      using Cons.prems z2 by (intro Cons.IH) simp_all
    then show ?thesis using z2 by auto
  qed
qed

lemma space_less_digit: "isdigit c \<Longrightarrow> CHR '' '' < c"
  unfolding isdigit_cases by (elim disjE) simp_all

lemma plus_less_digit: "isdigit c \<Longrightarrow> CHR ''+'' < c"
  unfolding isdigit_cases by (elim disjE) simp_all

lemma length_rjust: "length s \<le> w \<Longrightarrow> length (rjust w s) = w"
  by (simp add: rjust_def)

lemma rjust_digits_less:
  assumes "n < m" "m < 10 ^ w" "0 < w"
  shows "rjust w (digits n) < rjust w (digits m)"
proof -
  define a where "a = length (digits n)"
  define b where "b = length (digits m)"
  have ab: "a \<le> b" unfolding a_def b_def using assms(1) by (intro length_digits_mono) simp
  have bw: "b \<le> w" unfolding b_def using assms(2) assms(3) by (rule length_digits_le)
  show ?thesis
  proof (cases "a = b")
    case True
    then have "digits n < digits m" using digits_less [of n m] assms(1) unfolding a_def b_def by simp
    then show ?thesis unfolding rjust_def a_def [symmetric] b_def [symmetric] True
      by (simp add: append_same_less)
  next
    case False
    then have lt: "a < b" using ab by simp
    obtain h t where m: "digits m = h # t" using digits_not_Nil [of m] by (cases "digits m") auto
    have "isdigit h" using isdigit_digits [of m] m by simp
    then have sp: "CHR '' '' < h" by (rule space_less_digit)
    have r: "replicate (x + Suc y) c = replicate x c @ c # replicate y c" for x y and c :: char
      by (simp add: replicate_add replicate_append_same)
    have e: "w - a = (w - b) + Suc (b - a - 1)" using lt bw by simp
    have "replicate (w - a) CHR '' '' = replicate (w - b) CHR '' '' @ CHR '' '' # replicate (b - a - 1) CHR '' ''"
      by (subst e) (rule r)
    then have "rjust w (digits n) = replicate (w - b) CHR '' '' @ (CHR '' '' # replicate (b - a - 1) CHR '' '' @ digits n)"
      unfolding rjust_def a_def [symmetric] by simp
    moreover have "rjust w (digits m) = replicate (w - b) CHR '' '' @ (h # t)"
      by (simp add: rjust_def b_def m)
    ultimately show ?thesis using sp by (simp add: append_same_less)
  qed
qed

lemma rjust_digits_iff:
  assumes "n < 10 ^ w" "m < 10 ^ w" "0 < w"
  shows "(rjust w (digits n) < rjust w (digits m)) = (n < m)"
    and "(rjust w (digits n) = rjust w (digits m)) = (n = m)"
proof -
  have 1: "rjust w (digits n) < rjust w (digits m)" if "n < m"
    using that assms by (intro rjust_digits_less)
  have 2: "rjust w (digits m) < rjust w (digits n)" if "m < n"
    using that assms by (intro rjust_digits_less)
  show "(rjust w (digits n) < rjust w (digits m)) = (n < m)"
    using 1 2 by (cases n m rule: linorder_cases) auto
  show "(rjust w (digits n) = rjust w (digits m)) = (n = m)"
    using 1 2 by (cases n m rule: linorder_cases) auto
qed

lemma format_d_nonneg: "0 \<le> a \<Longrightarrow> format_d w a = rjust w (digits (nat a))"
  by (simp add: format_d_def py_str_def)

lemma format_d_iff:
  assumes "0 \<le> a" "a < 10 ^ w" "0 \<le> b" "b < 10 ^ w" "0 < w"
  shows "(format_d w a < format_d w b) = (a < b)"
    and "(format_d w a = format_d w b) = (a = b)"
    and "length (format_d w a) = w"
proof -
  have n: "nat a < 10 ^ w" "nat b < 10 ^ w" using assms by (simp_all add: nat_less_iff)
  show "(format_d w a < format_d w b) = (a < b)"
    unfolding format_d_nonneg [OF assms(1)] format_d_nonneg [OF assms(3)]
      rjust_digits_iff(1) [OF n assms(5)] by (rule nat_less_eq_zless [OF assms(1)])
  show "(format_d w a = format_d w b) = (a = b)"
    unfolding format_d_nonneg [OF assms(1)] format_d_nonneg [OF assms(3)]
      rjust_digits_iff(2) [OF n assms(5)] by (rule eq_nat_nat_iff [OF assms(1) assms(3)])
  show "length (format_d w a) = w"
    unfolding format_d_nonneg [OF assms(1)]
    using length_digits_le [OF n(1) assms(5)] by (rule length_rjust)
qed

lemma sort_key_less:
  assumes "wf_key x" "wf_key y"
  shows "(KeyFile_sort_key x < KeyFile_sort_key y) = (key_tuple x < key_tuple y)"
proof -
  have zx: "\<forall>c \<in> set (zone x). CHR ''+'' < c" and zy: "\<forall>c \<in> set (zone y). CHR ''+'' < c"
    using assms unfolding wf_key_def list_all_iff by blast+
  have tx: "\<forall>c \<in> set (type x). CHR ''+'' < c" and ty: "\<forall>c \<in> set (type y). CHR ''+'' < c"
    using assms unfolding wf_key_def by auto
  have ax: "0 \<le> algo x" "algo x < 10 ^ 3" and ay: "0 \<le> algo y" "algo y < 10 ^ 3"
    and kx: "0 \<le> keyid x" "keyid x < 10 ^ 5" and ky: "0 \<le> keyid y" "keyid y < 10 ^ 5"
    using assms unfolding wf_key_def by simp_all
  have w3: "(0 :: nat) < 3" and w5: "(0 :: nat) < 5" by simp_all
  note fa = format_d_iff [OF ax ay w3]
  note fk = format_d_iff [OF kx ky w5]
  have la: "length (format_d 3 (algo x)) = length (format_d 3 (algo y))"
    using fa(3) format_d_iff(3) [OF ay ax w3] by simp
  have 3: "(format_d 3 (algo x) @ CHR ''+'' # format_d 5 (keyid x)
            < format_d 3 (algo y) @ CHR ''+'' # format_d 5 (keyid y))
      = (algo x < algo y \<or> algo x = algo y \<and> keyid x < keyid y)"
    unfolding lex_same_length [OF la] fa(1) fa(2) Cons_less_Cons fk(1) by simp
  have 2: "(type x @ CHR ''+'' # format_d 3 (algo x) @ CHR ''+'' # format_d 5 (keyid x)
            < type y @ CHR ''+'' # format_d 3 (algo y) @ CHR ''+'' # format_d 5 (keyid y))
      = (type x < type y \<or> type x = type y
           \<and> (algo x < algo y \<or> algo x = algo y \<and> keyid x < keyid y))"
    unfolding lex_sep [OF tx ty] 3 ..
  have 1: "(KeyFile_sort_key x < KeyFile_sort_key y)
      = (zone x < zone y \<or> zone x = zone y
           \<and> (type x < type y \<or> type x = type y
                 \<and> (algo x < algo y \<or> algo x = algo y \<and> keyid x < keyid y)))"
    unfolding KeyFile_sort_key_def append_Cons append_Nil lex_sep [OF zx zy] 2 ..
  show ?thesis unfolding 1 key_tuple_def less_prod_simp by auto
qed

lemma sort_key_le:
  assumes "wf_key x" "wf_key y"
  shows "(KeyFile_sort_key x \<le> KeyFile_sort_key y) = (key_tuple x \<le> key_tuple y)"
  using sort_key_less [OF assms(2) assms(1)] by (simp add: not_less [symmetric])

lemma sorted_map_transfer:
  fixes f :: "'a \<Rightarrow> 'b :: linorder" and g :: "'a \<Rightarrow> 'c :: linorder"
  assumes "\<And>x y. x \<in> set xs \<Longrightarrow> y \<in> set xs \<Longrightarrow> f x \<le> f y \<Longrightarrow> g x \<le> g y"
  shows "sorted (map f xs) \<Longrightarrow> sorted (map g xs)"
  using assms by (induction xs) auto

lemma sorted_by_tuple:
  assumes "\<forall>k \<in> set ks. wf_key k"
  shows "sorted (map key_tuple (sort_key KeyFile_sort_key ks))"
proof -
  have s: "sorted (map KeyFile_sort_key (sort_key KeyFile_sort_key ks))" by (rule sorted_sort_key)
  have w: "wf_key k" if "k \<in> set (sort_key KeyFile_sort_key ks)" for k
    using that assms by simp
  show ?thesis
    by (rule sorted_map_transfer [OF _ s]) (simp add: sort_key_le w)
qed

section \<open>The listing of a directory\<close>

lemma constructs_iff: "constructs file \<longleftrightarrow> (\<exists>k. KeyFile_init file = Inr k)"
  unfolding constructs_def by (cases "KeyFile_init file") simp_all

lemma iter_keyfiles_alt:
  "iter_keyfiles d z =
     map (\<lambda>file. if paired d file then Yield file else Warn (warning file))
       (glob d (''K'' @ z @ ''+*+*.key''))"
  unfolding iter_keyfiles_def paired_def warning_def by (rule map_cong) simp_all

lemma collect_keys_ok:
  assumes "\<forall>file \<in> set fs. paired d file \<longrightarrow> constructs file"
  shows "\<exists>ks. collect_keys (map (\<lambda>file. if paired d file then Yield file else Warn (warning file)) fs)
             = (map warning (filter (\<lambda>f. \<not> paired d f) fs), Inr ks)
           \<and> map Inr ks = map KeyFile_init (filter (paired d) fs)"
  using assms
proof (induction fs)
  case Nil
  then show ?case by simp
next
  case (Cons f fs)
  then obtain ks where ih:
    "collect_keys (map (\<lambda>file. if paired d file then Yield file else Warn (warning file)) fs)
       = (map warning (filter (\<lambda>f. \<not> paired d f) fs), Inr ks)"
    "map Inr ks = map KeyFile_init (filter (paired d) fs)" by auto
  show ?case
  proof (cases "paired d f")
    case True
    then obtain k where k: "KeyFile_init f = Inr k" using Cons.prems constructs_iff by auto
    have "collect_keys (map (\<lambda>file. if paired d file then Yield file else Warn (warning file)) (f # fs))
        = (map warning (filter (\<lambda>f. \<not> paired d f) (f # fs)), Inr (k # ks))"
      using True k ih(1) by simp
    moreover have "map Inr (k # ks) = map KeyFile_init (filter (paired d) (f # fs))"
      using True k ih(2) by simp
    ultimately show ?thesis by blast
  next
    case False
    have "collect_keys (map (\<lambda>file. if paired d file then Yield file else Warn (warning file)) (f # fs))
        = (map warning (filter (\<lambda>f. \<not> paired d f) (f # fs)), Inr ks)"
      using False ih(1) by simp
    moreover have "map Inr ks = map KeyFile_init (filter (paired d) (f # fs))"
      using False ih(2) by simp
    ultimately show ?thesis by blast
  qed
qed

lemma valid_key_wf:
  assumes v: "valid_key_filename (f_name file)" and c: "KeyFile_init file = Inr self"
  shows "wf_key self"
proof -
  from v obtain m a k where ff: "split_on CHR ''+'' (stem (f_name file)) = [m, a, k]"
    and z: "list_all (\<lambda>c. CHR ''+'' < c) (tl m)"
    and a: "length a = 3" "list_all isdigit a" and k: "length k = 5" "list_all isdigit k"
    unfolding valid_key_filename_def by (auto split: list.splits)
  from c obtain s0 where i: "init_fields file = Inr s0"
    and p: "process_lines s0 (f_lines file) = Inr self"
    unfolding KeyFile_init_def by (cases "init_fields file") simp_all
  note f = init_fields_Inr [OF i, unfolded ff]
  have ne: "a \<noteq> []" "k \<noteq> []" using a k by auto
  have le: "length a \<le> max_str_digits" "length k \<le> max_str_digits"
    using a k by (simp_all add: max_str_digits_def)
  have "py_int a = Inr (algo s0)" "py_int k = Inr (keyid s0)" using f by simp_all
  then have n: "algo s0 = int (digits_val a)" "keyid s0 = int (digits_val k)"
    using py_int_digits [OF a(2) ne(1) le(1)] py_int_digits [OF k(2) ne(2) le(2)] by simp_all
  have b: "digits_val a < 1000" "digits_val k < 100000"
    using digits_val_lt [of a] digits_val_lt [of k] a(1) k(1) by simp_all
  have z0: "zone s0 = tl m" "type s0 = ''''" using f by simp_all
  from process_lines_identity [OF p] have id: "zone self = zone s0" "algo self = algo s0"
    "keyid self = keyid s0" unfolding same_identity_def by simp_all
  have t: "type self = ''ZSK'' \<or> type self = ''KSK'' \<or> type self = ''''"
    using process_lines_type [OF p] z0(2) by simp
  show ?thesis unfolding wf_key_def id z0 n using z b t by simp
qed

text \<open>
  C5. Take a zone and a directory in which every key file that the pattern matches and
  that has its private file is a well-formed key file: it is constructed, and its name is
  \<open>K<zone>+<algorithm>+<keyId>.key\<close> with three and five digits. Then \<open>list_keys\<close>
  raises nothing; it prints one warning for every matched \<open>.key\<close> file without a
  \<open>.private\<close> file, in the order of the glob, and skips the file; it returns the keys
  constructed from the matched files that have their private file, each once; and the
  returned list ascends in the tuple (zone, type, algorithm, key tag). The pattern is that
  of the recursive or of the plain listing.
\<close>

theorem list_keys_pairs_sorted:
  "pat = ''K'' @ (if recursive then ''*.'' @ lstrip_dots z else z) @ ''+*+*.key''
   \<and> (\<forall>file \<in> set (glob d pat). paired d file \<longrightarrow>
          constructs file \<and> valid_key_filename (f_name file))
   \<longrightarrow> (\<exists>ks. list_keys d z recursive
              = (map warning (filter (\<lambda>file. \<not> paired d file) (glob d pat)), Inr ks)
            \<and> mset (map Inr ks) = mset (map KeyFile_init (filter (paired d) (glob d pat)))
            \<and> sorted (map key_tuple ks))"
proof -
  have "\<exists>ks. list_keys d z recursive
              = (map warning (filter (\<lambda>file. \<not> paired d file) (glob d pat)), Inr ks)
            \<and> mset (map Inr ks) = mset (map KeyFile_init (filter (paired d) (glob d pat)))
            \<and> sorted (map key_tuple ks)"
    if pat: "pat = ''K'' @ (if recursive then ''*.'' @ lstrip_dots z else z) @ ''+*+*.key''"
      and ok: "\<forall>file \<in> set (glob d pat). paired d file \<longrightarrow>
          constructs file \<and> valid_key_filename (f_name file)"
  proof -
    define z1 where "z1 = (if recursive then ''*.'' @ lstrip_dots z else z)"
    have pz: "pat = ''K'' @ z1 @ ''+*+*.key''" unfolding pat z1_def ..
    have "\<forall>file \<in> set (glob d pat). paired d file \<longrightarrow> constructs file" using ok by blast
    from collect_keys_ok [OF this] obtain ks0 where
      c: "collect_keys (iter_keyfiles d z1)
            = (map warning (filter (\<lambda>f. \<not> paired d f) (glob d pat)), Inr ks0)"
      and m: "map Inr ks0 = map KeyFile_init (filter (paired d) (glob d pat))"
      unfolding iter_keyfiles_alt pz by blast
    have l: "list_keys d z recursive
        = (map warning (filter (\<lambda>f. \<not> paired d f) (glob d pat)),
           Inr (sort_key KeyFile_sort_key ks0))"
      unfolding list_keys_def Let_def z1_def [symmetric] c by simp
    have ms: "mset (map Inr (sort_key KeyFile_sort_key ks0))
        = mset (map KeyFile_init (filter (paired d) (glob d pat)))"
      unfolding m [symmetric] by simp
    have "wf_key k" if "k \<in> set ks0" for k
    proof -
      from that have "Inr k \<in> set (map KeyFile_init (filter (paired d) (glob d pat)))"
        unfolding m [symmetric] by simp
      then obtain pk where "pk \<in> set (glob d pat)" "paired d pk" "KeyFile_init pk = Inr k"
        by auto
      then show ?thesis using ok valid_key_wf by blast
    qed
    then have "sorted (map key_tuple (sort_key KeyFile_sort_key ks0))"
      by (intro sorted_by_tuple) blast
    then show ?thesis using l ms by blast
  qed
  then show ?thesis by blast
qed

lemma KeyFile_init_ksk_path: "KeyFile_init ksk_path = Inr parsed_ksk"
  by (simp add: ksk_path_def parsed_ksk_def eval_defs)

lemma glob_pair_dir: "glob pair_dir ''Kexample.com.+*+*.key'' = [example_path, orphan_path, ksk_path]"
  by (simp add: glob_def pair_dir_def fnmatch_def example_path_def example_private_def
      orphan_path_def ksk_path_def ksk_private_def)

lemma paired_pair_dir:
  "paired pair_dir example_path" "\<not> paired pair_dir orphan_path" "paired pair_dir ksk_path"
  by (simp_all add: paired_def path_exists_def pair_dir_def example_path_def example_private_def
      orphan_path_def ksk_path_def ksk_private_def with_suffix_def stem_def suffix_pos_def)

lemma valid_names:
  "valid_key_filename (f_name example_path)" "valid_key_filename (f_name ksk_path)"
  by (simp_all add: valid_key_filename_def example_path_def ksk_path_def stem_def suffix_pos_def
      isdigit_def)

lemma sort_keys_example:
  "KeyFile_sort_key parsed_example = ''example.com.+ZSK+  8+12345''"
  "KeyFile_sort_key parsed_ksk = ''example.com.+KSK+  8+   42''"
  by (simp_all add: KeyFile_sort_key_def parsed_example_def parsed_ksk_def format_d_def rjust_def
      py_str_def digits_lt10 digits_ge10 digit_chr_def replicate_numeral)

lemma warning_orphan_path:
  "warning orphan_path
     = ''Warning: Kexample.com.+013+54321.key exists, but corresponding .private does not!''"
  by (simp add: warning_def orphan_path_def example_path_def)

lemma list_keys_pair_dir:
  "list_keys pair_dir ''example.com.'' False
     = ([''Warning: Kexample.com.+013+54321.key exists, but corresponding .private does not!''],
        Inr [parsed_ksk, parsed_example])"
  unfolding list_keys_def iter_keyfiles_alt Let_def
  by (simp add: glob_pair_dir paired_pair_dir KeyFile_init_example_path KeyFile_init_ksk_path
      sort_keys_example warning_orphan_path)

theorem list_keys_pairs_sorted_witness:
  "(\<exists>ks. list_keys pair_dir ''example.com.'' False
          = ([''Warning: Kexample.com.+013+54321.key exists, but corresponding .private does not!''],
             Inr ks)
        \<and> mset (map Inr ks) = mset [KeyFile_init example_path, KeyFile_init ksk_path]
        \<and> sorted (map key_tuple ks))
   \<and> list_keys pair_dir ''example.com.'' False
       = ([''Warning: Kexample.com.+013+54321.key exists, but corresponding .private does not!''],
          Inr [parsed_ksk, parsed_example])
   \<and> key_tuple parsed_ksk < key_tuple parsed_example"
proof -
  have p: "''Kexample.com.+*+*.key'' = ''K'' @ (if False then ''*.'' @ lstrip_dots ''example.com.'' else ''example.com.'') @ ''+*+*.key''"
    by simp
  have h: "\<forall>file \<in> set (glob pair_dir ''Kexample.com.+*+*.key''). paired pair_dir file \<longrightarrow>
          constructs file \<and> valid_key_filename (f_name file)"
    unfolding glob_pair_dir
    by (simp add: paired_pair_dir valid_names constructs_def KeyFile_init_example_path
        KeyFile_init_ksk_path)
  have w: "warning orphan_path
      = ''Warning: Kexample.com.+013+54321.key exists, but corresponding .private does not!''"
    by (simp add: warning_def orphan_path_def example_path_def)
  from list_keys_pairs_sorted [of "''Kexample.com.+*+*.key''" False "''example.com.''" pair_dir] p h
  have "\<exists>ks. list_keys pair_dir ''example.com.'' False
              = (map warning (filter (\<lambda>file. \<not> paired pair_dir file) (glob pair_dir ''Kexample.com.+*+*.key'')), Inr ks)
            \<and> mset (map Inr ks) = mset (map KeyFile_init (filter (paired pair_dir) (glob pair_dir ''Kexample.com.+*+*.key'')))
            \<and> sorted (map key_tuple ks)"
    by blast
  then have 1: "\<exists>ks. list_keys pair_dir ''example.com.'' False
          = ([''Warning: Kexample.com.+013+54321.key exists, but corresponding .private does not!''],
             Inr ks)
        \<and> mset (map Inr ks) = mset [KeyFile_init example_path, KeyFile_init ksk_path]
        \<and> sorted (map key_tuple ks)"
    unfolding glob_pair_dir
    by (simp add: paired_pair_dir w)
  have 2: "key_tuple parsed_ksk < key_tuple parsed_example"
    by (simp add: key_tuple_def parsed_ksk_def parsed_example_def)
  from 1 2 list_keys_pair_dir show ?thesis by blast
qed

end
